theory Spec2Isabelle
  imports Main "HOL-Library.Word" "HOL-Library.AList"
begin

section \<open>JavaScript strings and values\<close>

text \<open>
  A JavaScript string is a sequence of UTF-16 code units; \<open>length\<close> counts code units,
  as \<^verbatim>\<open>key.length\<close> does. String literals of the source are written \<open>js ''...''\<close>.
\<close>

type_synonym jsstring = "16 word list"

definition js :: "string \<Rightarrow> jsstring" where
  "js s = map of_char s"

datatype error = TypeError | URIError | QuotaExceededError

text \<open>
  A regular expression object has its \<^verbatim>\<open>source\<close> and \<^verbatim>\<open>flags\<close> and the matcher of
  its pattern, which for a string and an index yields the end index of the match that
  starts at that index, if there is one. Its \<^verbatim>\<open>lastIndex\<close> is mutable and is kept
  in the page, by the identity of the object.
\<close>

record RegExp =
  source :: jsstring
  flags :: jsstring
  RegExpMatcher :: "jsstring \<Rightarrow> nat \<Rightarrow> nat option"

text \<open>
  The values a caller can pass where the source inspects \<^verbatim>\<open>typeof\<close>. Numbers are the
  integers, printed in full; fractions, \<^verbatim>\<open>NaN\<close> and the exponent form of large
  doubles are outside the model. \<open>JRegExp a R\<close> is the regular expression object of
  identity \<open>a\<close>. \<open>JObj r\<close> is any other object, given by what converting it to a string
  yields (\<open>None\<close>: the conversion throws).
\<close>

datatype jsval =
    JUndefined
  | JNull
  | JBool bool
  | JNum int
  | JStr jsstring
  | JRegExp nat RegExp
  | JArr "jsval list"
  | JObj "jsstring option"

fun truthy :: "jsval \<Rightarrow> bool" where
  "truthy JUndefined = False"
| "truthy JNull = False"
| "truthy (JBool b) = b"
| "truthy (JNum n) = (n \<noteq> 0)"
| "truthy (JStr s) = (s \<noteq> [])"
| "truthy (JRegExp a R) = True"
| "truthy (JArr xs) = True"
| "truthy (JObj r) = True"

fun digits10 :: "nat \<Rightarrow> nat list" where
  "digits10 n = (if n < 10 then [n] else digits10 (n div 10) @ [n mod 10])"

declare digits10.simps [simp del]

definition Number_toString :: "int \<Rightarrow> jsstring" where
  "Number_toString n =
     (if n < 0 then js ''-'' else []) @ map (\<lambda>d. of_nat (48 + d)) (digits10 (nat \<bar>n\<bar>))"

text \<open>\<^verbatim>\<open>String(value)\<close>; an array prints its elements joined by commas.\<close>

fun ToString :: "jsval \<Rightarrow> error + jsstring"
  and Array_join :: "jsval list \<Rightarrow> error + jsstring" where
  "ToString JUndefined = Inr (js ''undefined'')"
| "ToString JNull = Inr (js ''null'')"
| "ToString (JBool b) = Inr (if b then js ''true'' else js ''false'')"
| "ToString (JNum n) = Inr (Number_toString n)"
| "ToString (JStr s) = Inr s"
| "ToString (JRegExp a R) = Inr (js ''/'' @ source R @ js ''/'' @ flags R)"
| "ToString (JArr xs) = Array_join xs"
| "ToString (JObj r) = (case r of None \<Rightarrow> Inl TypeError | Some s \<Rightarrow> Inr s)"
| "Array_join [] = Inr []"
| "Array_join (x # xs) =
     (case (if x = JUndefined \<or> x = JNull then Inr [] else ToString x) of
        Inl e \<Rightarrow> Inl e
      | Inr s \<Rightarrow>
          (if xs = [] then Inr s
           else case Array_join xs of Inl e \<Rightarrow> Inl e | Inr r \<Rightarrow> Inr (s @ js '','' @ r)))"

subsection \<open>String methods used by the source\<close>

text \<open>The code units matched by \<^verbatim>\<open>\s\<close> and removed by \<^verbatim>\<open>trim()\<close>.\<close>

definition is_space :: "16 word \<Rightarrow> bool" where
  "is_space c \<longleftrightarrow>
     (0x09 \<le> c \<and> c \<le> 0x0D) \<or> c = 0x20 \<or> c = 0xA0 \<or> c = 0x1680
     \<or> (0x2000 \<le> c \<and> c \<le> 0x200A) \<or> c = 0x2028 \<or> c = 0x2029 \<or> c = 0x202F
     \<or> c = 0x205F \<or> c = 0x3000 \<or> c = 0xFEFF"

definition trim :: "jsstring \<Rightarrow> jsstring" where
  "trim s = rev (dropWhile is_space (rev (dropWhile is_space s)))"

fun indexOf :: "jsstring \<Rightarrow> 16 word \<Rightarrow> nat option" where
  "indexOf [] c = None"
| "indexOf (x # xs) c = (if x = c then Some 0 else map_option Suc (indexOf xs c))"

definition startsWith :: "jsstring \<Rightarrow> jsstring \<Rightarrow> bool" where
  "startsWith s p \<longleftrightarrow> take (length p) s = p"

text \<open>
  \<^verbatim>\<open>s.split(sep)\<close> for a separator of one code unit; the result is never empty, so the
  first branch of the \<open>case\<close> is not reached.
\<close>

fun split :: "jsstring \<Rightarrow> 16 word \<Rightarrow> jsstring list" where
  "split [] sep = [[]]"
| "split (c # cs) sep =
     (if c = sep then [] # split cs sep
      else (case split cs sep of [] \<Rightarrow> [[c]] | p # ps \<Rightarrow> (c # p) # ps))"

fun join :: "jsstring list \<Rightarrow> jsstring \<Rightarrow> jsstring" where
  "join [] sep = []"
| "join [p] sep = p"
| "join (p # q # ps) sep = p @ sep @ join (q # ps) sep"

subsection \<open>Regular expression objects\<close>

definition is_leading_surrogate :: "16 word \<Rightarrow> bool" where
  "is_leading_surrogate c \<longleftrightarrow> 0xD800 \<le> c \<and> c \<le> 0xDBFF"

definition is_trailing_surrogate :: "16 word \<Rightarrow> bool" where
  "is_trailing_surrogate c \<longleftrightarrow> 0xDC00 \<le> c \<and> c \<le> 0xDFFF"

definition global :: "RegExp \<Rightarrow> bool" where
  "global R \<longleftrightarrow> 0x67 \<in> set (flags R)"

definition sticky :: "RegExp \<Rightarrow> bool" where
  "sticky R \<longleftrightarrow> 0x79 \<in> set (flags R)"

definition fullUnicode :: "RegExp \<Rightarrow> bool" where
  "fullUnicode R \<longleftrightarrow> 0x75 \<in> set (flags R) \<or> 0x76 \<in> set (flags R)"

definition AdvanceStringIndex :: "jsstring \<Rightarrow> nat \<Rightarrow> bool \<Rightarrow> nat" where
  "AdvanceStringIndex S index unicode =
     (if \<not> unicode then index + 1
      else if index + 1 \<ge> length S then index + 1
      else if is_leading_surrogate (S ! index) \<and> is_trailing_surrogate (S ! (index + 1))
      then index + 2
      else index + 1)"

text \<open>
  The loop of \<^verbatim>\<open>RegExpBuiltinExec\<close>: the matcher is tried at \<open>lastIndex\<close> and, unless
  the pattern is sticky, at each later index up to the length of the string. The result
  is the end index of the match found.
\<close>

function RegExpSearch :: "RegExp \<Rightarrow> jsstring \<Rightarrow> nat \<Rightarrow> nat option" where
  "RegExpSearch R S lastIndex =
     (if lastIndex > length S then None
      else case RegExpMatcher R S lastIndex of
             Some e \<Rightarrow> Some e
           | None \<Rightarrow>
               (if sticky R then None
                else RegExpSearch R S (AdvanceStringIndex S lastIndex (fullUnicode R))))"
  by pat_completeness auto
termination
  by (relation "measure (\<lambda>(R, S, i). length S + 1 - i)")
     (auto simp: AdvanceStringIndex_def)

declare RegExpSearch.simps [simp del]

text \<open>
  \<^verbatim>\<open>RegExp.prototype.test\<close> on a string, for the object of identity \<open>a\<close>, on the
  \<^verbatim>\<open>lastIndex\<close> of every object. A pattern that is neither global nor sticky
  searches from index 0 and leaves \<^verbatim>\<open>lastIndex\<close> alone; a global or sticky pattern
  searches from its \<^verbatim>\<open>lastIndex\<close> and sets it to the end of the match, or to 0 when
  there is none.
\<close>

definition RegExp_test :: "nat \<Rightarrow> RegExp \<Rightarrow> jsstring \<Rightarrow> (nat \<Rightarrow> nat) \<Rightarrow> bool \<times> (nat \<Rightarrow> nat)" where
  "RegExp_test a R S li =
     (if global R \<or> sticky R
      then (case RegExpSearch R S (li a) of
              None \<Rightarrow> (False, li(a := 0))
            | Some e \<Rightarrow> (True, li(a := e)))
      else (RegExpSearch R S 0 \<noteq> None, li))"

subsection \<open>Regular expressions matched against the whole string\<close>

datatype rexp =
    Nothing
  | Empty
  | Class "16 word \<Rightarrow> bool"
  | Seq rexp rexp
  | Alt rexp rexp
  | Star rexp

fun nullable :: "rexp \<Rightarrow> bool" where
  "nullable Nothing = False"
| "nullable Empty = True"
| "nullable (Class p) = False"
| "nullable (Seq r s) = (nullable r \<and> nullable s)"
| "nullable (Alt r s) = (nullable r \<or> nullable s)"
| "nullable (Star r) = True"

fun deriv :: "16 word \<Rightarrow> rexp \<Rightarrow> rexp" where
  "deriv c Nothing = Nothing"
| "deriv c Empty = Nothing"
| "deriv c (Class p) = (if p c then Empty else Nothing)"
| "deriv c (Seq r s) =
     (if nullable r then Alt (Seq (deriv c r) s) (deriv c s) else Seq (deriv c r) s)"
| "deriv c (Alt r s) = Alt (deriv c r) (deriv c s)"
| "deriv c (Star r) = Seq (deriv c r) (Star r)"

fun anchored_test :: "rexp \<Rightarrow> jsstring \<Rightarrow> bool" where
  "anchored_test r [] = nullable r"
| "anchored_test r (c # cs) = anchored_test (deriv c r) cs"

definition OneOrMore :: "rexp \<Rightarrow> rexp" where
  "OneOrMore r = Seq r (Star r)"

definition is_digit :: "16 word \<Rightarrow> bool" where
  "is_digit c \<longleftrightarrow> 0x30 \<le> c \<and> c \<le> 0x39"

definition dot :: "16 word" where
  "dot = 0x2E"

text \<open>\<^verbatim>\<open>/^\d+\.\d+\.\d+\.\d+$/\<close>\<close>

definition ipv4_pattern :: rexp where
  "ipv4_pattern =
     Seq (OneOrMore (Class is_digit)) (Seq (Class (\<lambda>c. c = dot))
    (Seq (OneOrMore (Class is_digit)) (Seq (Class (\<lambda>c. c = dot))
    (Seq (OneOrMore (Class is_digit)) (Seq (Class (\<lambda>c. c = dot))
         (OneOrMore (Class is_digit)))))))"

section \<open>Configuration\<close>

record config =
  cookiePrefix :: jsval
  cookieMaxAge :: jsval
  syncKeys :: jsval
  overwriteExisting :: jsval
  storageType :: jsval
  debug :: jsval

definition CONFIG_default :: config where
  "CONFIG_default =
     \<lparr> cookiePrefix = JStr (js ''sds_sync_''),
       cookieMaxAge = JNum (365 * 24 * 60 * 60),
       syncKeys = JArr [],
       overwriteExisting = JBool False,
       storageType = JStr (js ''localStorage''),
       debug = JBool False \<rparr>"

fun is_boolean :: "jsval \<Rightarrow> bool" where
  "is_boolean (JBool b) = True"
| "is_boolean v = False"

fun is_string :: "jsval \<Rightarrow> bool" where
  "is_string (JStr s) = True"
| "is_string v = False"

fun is_number :: "jsval \<Rightarrow> bool" where
  "is_number (JNum n) = True"
| "is_number v = False"

fun is_RegExp :: "jsval \<Rightarrow> bool" where
  "is_RegExp (JRegExp a R) = True"
| "is_RegExp v = False"

definition validStorageTypes :: "jsval list" where
  "validStorageTypes =
     [JStr (js ''localStorage''), JStr (js ''sessionStorage''), JStr (js ''both'')]"

text \<open>The callback of \<^verbatim>\<open>CONFIG.syncKeys.filter\<close>.\<close>

definition syncKeys_entry_ok :: "jsval \<Rightarrow> bool" where
  "syncKeys_entry_ok k =
     (if \<not> is_string k \<and> \<not> is_RegExp k then False
      else if is_string k \<and> k = JStr [] then False
      else True)"

text \<open>
  \<^verbatim>\<open>validateConfig\<close> repairs the shared configuration in place and returns
  \<^verbatim>\<open>isValid\<close>; the model returns the flag and the repaired configuration. The message
  about an invalid \<^verbatim>\<open>storageType\<close> is built with a template literal, which converts
  the value to a string before anything is repaired and throws when the conversion does.
\<close>

definition validateConfig :: "config \<Rightarrow> error + bool \<times> config" where
  "validateConfig c0 =
     (case (if storageType c0 \<notin> set validStorageTypes
            then (case ToString (storageType c0) of
                    Inl e \<Rightarrow> Inl e
                  | Inr s \<Rightarrow> Inr (False, c0\<lparr>storageType := JStr (js ''localStorage'')\<rparr>))
            else Inr (True, c0)) of
        Inl e \<Rightarrow> Inl e
      | Inr (v1, c1) \<Rightarrow>
          (let (v2, c2) =
                 (if \<not> is_boolean (overwriteExisting c1)
                  then (False, c1\<lparr>overwriteExisting := JBool False\<rparr>)
                  else (v1, c1));
               (v3, c3) =
                 (if \<not> is_boolean (debug c2)
                  then (False, c2\<lparr>debug := JBool False\<rparr>)
                  else (v2, c2));
               (v4, c4) =
                 (if \<not> is_string (cookiePrefix c3) \<or> cookiePrefix c3 = JStr []
                  then (False, c3\<lparr>cookiePrefix := JStr (js ''ls_sync_'')\<rparr>)
                  else (v3, c3));
               (v5, c5) =
                 (if \<not> is_number (cookieMaxAge c4)
                     \<or> (case cookieMaxAge c4 of JNum n \<Rightarrow> n \<le> 0 | _ \<Rightarrow> False)
                  then (False, c4\<lparr>cookieMaxAge := JNum (365 * 24 * 60 * 60)\<rparr>)
                  else (v4, c4))
           in case syncKeys c5 of
                JArr ks \<Rightarrow> Inr (v5, c5\<lparr>syncKeys := JArr (filter syncKeys_entry_ok ks)\<rparr>)
              | _ \<Rightarrow> Inr (False, c5\<lparr>syncKeys := JArr []\<rparr>)))"

section \<open>Domain resolver\<close>

text \<open>\<^verbatim>\<open>window.location.hostname\<close> is the argument.\<close>

definition getParentDomain :: "jsstring \<Rightarrow> jsstring" where
  "getParentDomain hostname =
     (if hostname = js ''localhost'' \<or> anchored_test ipv4_pattern hostname then hostname
      else let parts = split hostname dot
           in if length parts > 2
              then js ''.'' @ join (drop (length parts - 2) parts) (js ''.'')
              else js ''.'' @ hostname)"

section \<open>Sanitizers\<close>

definition semicolon :: "16 word" where "semicolon = 0x3B"
definition comma :: "16 word" where "comma = 0x2C"
definition equals :: "16 word" where "equals = 0x3D"
definition underscore :: "16 word" where "underscore = 0x5F"

text \<open>\<^verbatim>\<open>key.replace(/[;,\s=]/g, "_")\<close>\<close>

definition replace_forbidden :: "jsstring \<Rightarrow> jsstring" where
  "replace_forbidden key =
     map (\<lambda>c. if c = semicolon \<or> c = comma \<or> is_space c \<or> c = equals
              then underscore else c) key"

fun sanitizeKey :: "jsval \<Rightarrow> jsstring option" where
  "sanitizeKey (JStr key) =
     (if length key = 0 then None
      else if length key > 200 then None
      else Some (replace_forbidden key))"
| "sanitizeKey v = None"

fun sanitizeValue :: "jsval \<Rightarrow> error + jsstring option" where
  "sanitizeValue JNull = Inr (Some [])"
| "sanitizeValue JUndefined = Inr (Some [])"
| "sanitizeValue v =
     (case ToString v of
        Inl e \<Rightarrow> Inl e
      | Inr s \<Rightarrow> (if length s > 3500 then Inr None else Inr (Some s)))"

section \<open>URI component encoding\<close>

text \<open>
  \<^verbatim>\<open>encodeURIComponent\<close> and \<^verbatim>\<open>decodeURIComponent\<close> of ECMAScript: every code unit
  outside the unescaped set is written as the percent-escaped octets of the UTF-8
  encoding of its code point; an unpaired surrogate, and on decoding a malformed escape
  or an invalid UTF-8 sequence, throws \<^verbatim>\<open>URIError\<close>.
\<close>

definition percent :: "16 word" where "percent = 0x25"

definition uriUnescaped :: "16 word \<Rightarrow> bool" where
  "uriUnescaped c \<longleftrightarrow>
     (0x41 \<le> c \<and> c \<le> 0x5A) \<or> (0x61 \<le> c \<and> c \<le> 0x7A) \<or> (0x30 \<le> c \<and> c \<le> 0x39)
     \<or> c = 0x2D \<or> c = 0x5F \<or> c = 0x2E \<or> c = 0x21 \<or> c = 0x7E
     \<or> c = 0x2A \<or> c = 0x27 \<or> c = 0x28 \<or> c = 0x29"

definition surrogate_pair_code_point :: "16 word \<Rightarrow> 16 word \<Rightarrow> nat" where
  "surrogate_pair_code_point lead trail =
     (unat lead - 0xD800) * 0x400 + (unat trail - 0xDC00) + 0x10000"

definition UTF16EncodeCodePoint :: "nat \<Rightarrow> jsstring" where
  "UTF16EncodeCodePoint cp =
     (if cp \<le> 0xFFFF then [of_nat cp]
      else [of_nat ((cp - 0x10000) div 0x400 + 0xD800),
            of_nat ((cp - 0x10000) mod 0x400 + 0xDC00)])"

definition utf8_octets :: "nat \<Rightarrow> nat list" where
  "utf8_octets cp =
     (if cp < 0x80 then [cp]
      else if cp < 0x800 then [0xC0 + cp div 64, 0x80 + cp mod 64]
      else if cp < 0x10000
        then [0xE0 + cp div 4096, 0x80 + (cp div 64) mod 64, 0x80 + cp mod 64]
      else [0xF0 + cp div 262144, 0x80 + (cp div 4096) mod 64,
            0x80 + (cp div 64) mod 64, 0x80 + cp mod 64])"

definition hex_digit :: "nat \<Rightarrow> 16 word" where
  "hex_digit n = (if n < 10 then of_nat (48 + n) else of_nat (55 + n))"

definition escape_octet :: "nat \<Rightarrow> jsstring" where
  "escape_octet b = [percent, hex_digit (b div 16), hex_digit (b mod 16)]"

definition escape_code_point :: "nat \<Rightarrow> jsstring" where
  "escape_code_point cp = concat (map escape_octet (utf8_octets cp))"

fun encodeURIComponent :: "jsstring \<Rightarrow> error + jsstring" where
  "encodeURIComponent [] = Inr []"
| "encodeURIComponent (c # cs) =
     (if uriUnescaped c
      then (case encodeURIComponent cs of Inl e \<Rightarrow> Inl e | Inr r \<Rightarrow> Inr (c # r))
      else if is_trailing_surrogate c then Inl URIError
      else if is_leading_surrogate c
      then (case cs of
              [] \<Rightarrow> Inl URIError
            | d # ds \<Rightarrow>
                (if \<not> is_trailing_surrogate d then Inl URIError
                 else case encodeURIComponent ds of
                        Inl e \<Rightarrow> Inl e
                      | Inr r \<Rightarrow> Inr (escape_code_point (surrogate_pair_code_point c d) @ r)))
      else (case encodeURIComponent cs of
              Inl e \<Rightarrow> Inl e
            | Inr r \<Rightarrow> Inr (escape_code_point (unat c) @ r)))"

definition hex_value :: "16 word \<Rightarrow> nat option" where
  "hex_value c =
     (if 0x30 \<le> c \<and> c \<le> 0x39 then Some (unat c - 0x30)
      else if 0x41 \<le> c \<and> c \<le> 0x46 then Some (unat c - 0x41 + 10)
      else if 0x61 \<le> c \<and> c \<le> 0x66 then Some (unat c - 0x61 + 10)
      else None)"

text \<open>The octet written by the two code units that follow a percent sign.\<close>

fun ParseHexOctet :: "jsstring \<Rightarrow> nat option" where
  "ParseHexOctet (h # l # cs) =
     (case hex_value h of
        None \<Rightarrow> None
      | Some a \<Rightarrow> (case hex_value l of None \<Rightarrow> None | Some b \<Rightarrow> Some (16 * a + b)))"
| "ParseHexOctet cs = None"

text \<open>The number of leading 1 bits of an octet, 5 standing for five or more.\<close>

definition leading_ones :: "nat \<Rightarrow> nat" where
  "leading_ones b =
     (if b < 0x80 then 0 else if b < 0xC0 then 1 else if b < 0xE0 then 2
      else if b < 0xF0 then 3 else if b < 0xF8 then 4 else 5)"

text \<open>The next \<open>m\<close> escapes \<^verbatim>\<open>%XX\<close>, as octets.\<close>

fun continuation_octets :: "nat \<Rightarrow> jsstring \<Rightarrow> nat list option" where
  "continuation_octets 0 cs = Some []"
| "continuation_octets (Suc m) [] = None"
| "continuation_octets (Suc m) (c # cs) =
     (if c \<noteq> percent then None
      else case ParseHexOctet cs of
             None \<Rightarrow> None
           | Some b \<Rightarrow> map_option ((#) b) (continuation_octets m (drop 2 cs)))"

definition is_continuation :: "nat \<Rightarrow> bool" where
  "is_continuation b \<longleftrightarrow> 0x80 \<le> b \<and> b < 0xC0"

text \<open>
  The code point of a valid UTF-8 sequence of two to four octets: no overlong form, no
  surrogate, nothing above \<open>0x10FFFF\<close>.
\<close>

fun utf8_code_point :: "nat list \<Rightarrow> nat option" where
  "utf8_code_point [b1, b2] =
     (let v = (b1 - 0xC0) * 64 + (b2 - 0x80)
      in if is_continuation b2 \<and> 0x80 \<le> v then Some v else None)"
| "utf8_code_point [b1, b2, b3] =
     (let v = (b1 - 0xE0) * 4096 + (b2 - 0x80) * 64 + (b3 - 0x80)
      in if is_continuation b2 \<and> is_continuation b3 \<and> 0x800 \<le> v
            \<and> \<not> (0xD800 \<le> v \<and> v \<le> 0xDFFF)
         then Some v else None)"
| "utf8_code_point [b1, b2, b3, b4] =
     (let v = (b1 - 0xF0) * 262144 + (b2 - 0x80) * 4096 + (b3 - 0x80) * 64 + (b4 - 0x80)
      in if is_continuation b2 \<and> is_continuation b3 \<and> is_continuation b4
            \<and> 0x10000 \<le> v \<and> v \<le> 0x10FFFF
         then Some v else None)"
| "utf8_code_point bs = None"

function decodeURIComponent :: "jsstring \<Rightarrow> error + jsstring" where
  "decodeURIComponent [] = Inr []"
| "decodeURIComponent (c # cs) =
     (if c \<noteq> percent
      then (case decodeURIComponent cs of Inl e \<Rightarrow> Inl e | Inr r \<Rightarrow> Inr (c # r))
      else case ParseHexOctet cs of
             None \<Rightarrow> Inl URIError
           | Some b \<Rightarrow>
               (let n = leading_ones b
                in if n = 0
                   then (case decodeURIComponent (drop 2 cs) of
                           Inl e \<Rightarrow> Inl e
                         | Inr r \<Rightarrow> Inr (of_nat b # r))
                   else if n = 1 \<or> n > 4 then Inl URIError
                   else case continuation_octets (n - 1) (drop 2 cs) of
                          None \<Rightarrow> Inl URIError
                        | Some bs \<Rightarrow>
                            (case utf8_code_point (b # bs) of
                               None \<Rightarrow> Inl URIError
                             | Some v \<Rightarrow>
                                 (case decodeURIComponent (drop (2 + 3 * (n - 1)) cs) of
                                    Inl e \<Rightarrow> Inl e
                                  | Inr r \<Rightarrow> Inr (UTF16EncodeCodePoint v @ r)))))"
  by pat_completeness auto
termination
  by (relation "measure length") auto

section \<open>The page: cookie jar, storage areas and module state\<close>

datatype area = localStorage | sessionStorage

datatype syncedKey = SyncedKey jsstring jsstring bool

datatype skippedKey = SkippedKey jsstring jsstring jsstring

record SyncReport =
  syncedCount :: nat
  syncedKeys :: "syncedKey list"
  skippedKeys :: "skippedKey list"
  totalCookies :: nat

text \<open>
  What the page can observe: every string assigned to \<^verbatim>\<open>document.cookie\<close>, every
  call of the native \<^verbatim>\<open>setItem\<close>, every \<^verbatim>\<open>storagesynccomplete\<close> event.
\<close>

datatype event =
    CookieAssigned jsstring
  | NativeSetItem area jsval jsval
  | SyncComplete SyncReport

text \<open>
  A value of \<^verbatim>\<open>Storage.prototype.setItem\<close> (or \<^verbatim>\<open>removeItem\<close>, \<^verbatim>\<open>clear\<close>): the
  browser's primitive, or a function installed by \<^verbatim>\<open>setupLocalChangeDetection\<close>,
  which holds the function it delegates to.
\<close>

datatype primitive = Native | Wrapper primitive

record world =
  CONFIG :: config
  hostname :: jsstring
  cookies :: "(jsstring \<times> jsstring) list"
  cookie_limit :: nat
  localStorage_items :: "(jsstring \<times> jsstring) list"
  sessionStorage_items :: "(jsstring \<times> jsstring) list"
  storage_quota :: nat
  Storage_setItem :: primitive
  Storage_removeItem :: primitive
  Storage_clear :: primitive
  originalSetItem :: primitive
  originalRemoveItem :: primitive
  originalClear :: primitive
  storage_listeners :: nat
  complete_listener :: bool
  syncCompleteResolve :: bool
  syncCompletePromise :: "SyncReport option"
  isInitialized :: bool
  lastIndex :: "nat \<Rightarrow> nat"
  trace :: "event list"

subsection \<open>The cookie jar behind \<^verbatim>\<open>document.cookie\<close>\<close>

text \<open>
  The jar holds the cookies visible to the page, one per name, in creation order.
  Assigning a string parses it as RFC 6265 does: the name-value pair ends at the first
  semicolon and splits at its first equals sign, both parts lose surrounding spaces and
  tabs, and the last valid \<^verbatim>\<open>Max-Age\<close> attribute decides whether the cookie is stored or
  removed. A cookie whose name and value exceed \<open>cookie_limit\<close> is dropped. Domain and
  path scoping, public suffixes and \<^verbatim>\<open>Expires\<close> are outside the model.
\<close>

definition is_wsp :: "16 word \<Rightarrow> bool" where
  "is_wsp c \<longleftrightarrow> c = 0x20 \<or> c = 0x09"

definition trim_wsp :: "jsstring \<Rightarrow> jsstring" where
  "trim_wsp s = rev (dropWhile is_wsp (rev (dropWhile is_wsp s)))"

definition to_lower :: "16 word \<Rightarrow> 16 word" where
  "to_lower c = (if 0x41 \<le> c \<and> c \<le> 0x5A then c + 0x20 else c)"

definition digits_value :: "jsstring \<Rightarrow> nat" where
  "digits_value s = foldl (\<lambda>a c. 10 * a + (unat c - 0x30)) 0 s"

definition delta_seconds :: "jsstring \<Rightarrow> int option" where
  "delta_seconds v =
     (case v of
        [] \<Rightarrow> None
      | c # cs \<Rightarrow>
          (if c = 0x2D then (if list_all is_digit cs then Some (- int (digits_value cs)) else None)
           else if list_all is_digit v then Some (int (digits_value v))
           else None))"

definition attribute :: "jsstring \<Rightarrow> jsstring \<times> jsstring" where
  "attribute av =
     (case indexOf av equals of
        None \<Rightarrow> (trim_wsp av, [])
      | Some i \<Rightarrow> (trim_wsp (take i av), trim_wsp (drop (Suc i) av)))"

fun Max_Age :: "jsstring list \<Rightarrow> int option \<Rightarrow> int option" where
  "Max_Age [] found = found"
| "Max_Age (av # avs) found =
     (if map to_lower (fst (attribute av)) = js ''max-age''
      then (case delta_seconds (snd (attribute av)) of
              None \<Rightarrow> Max_Age avs found
            | Some d \<Rightarrow> Max_Age avs (Some d))
      else Max_Age avs found)"

definition document_cookie :: "world \<Rightarrow> jsstring" where
  "document_cookie w = join (map (\<lambda>(n, v). n @ js ''='' @ v) (cookies w)) (js ''; '')"

definition set_document_cookie :: "jsstring \<Rightarrow> world \<Rightarrow> world" where
  "set_document_cookie s w =
     (let w1 = w\<lparr>trace := trace w @ [CookieAssigned s]\<rparr>;
          pieces = split s semicolon
      in case indexOf (hd pieces) equals of
           None \<Rightarrow> w1
         | Some i \<Rightarrow>
             (let name = trim_wsp (take i (hd pieces));
                  val = trim_wsp (drop (Suc i) (hd pieces));
                  expired = (case Max_Age (tl pieces) None of None \<Rightarrow> False | Some d \<Rightarrow> d \<le> 0)
              in if name = [] then w1
                 else if expired then w1\<lparr>cookies := AList.delete name (cookies w1)\<rparr>
                 else if length name + length val > cookie_limit w1 then w1
                 else w1\<lparr>cookies := AList.update name val (cookies w1)\<rparr>))"

subsection \<open>The storage areas\<close>

text \<open>
  A storage area holds its items in insertion order. The native \<^verbatim>\<open>setItem\<close> converts
  its arguments to strings and throws \<^verbatim>\<open>QuotaExceededError\<close> when the area would grow
  beyond \<open>storage_quota\<close>.
\<close>

fun items_of :: "area \<Rightarrow> world \<Rightarrow> (jsstring \<times> jsstring) list" where
  "items_of localStorage w = localStorage_items w"
| "items_of sessionStorage w = sessionStorage_items w"

fun set_items :: "area \<Rightarrow> (jsstring \<times> jsstring) list \<Rightarrow> world \<Rightarrow> world" where
  "set_items localStorage xs w = w\<lparr>localStorage_items := xs\<rparr>"
| "set_items sessionStorage xs w = w\<lparr>sessionStorage_items := xs\<rparr>"

definition getItem :: "area \<Rightarrow> jsstring \<Rightarrow> world \<Rightarrow> jsstring option" where
  "getItem a k w = map_of (items_of a w) k"

definition storage_size :: "(jsstring \<times> jsstring) list \<Rightarrow> nat" where
  "storage_size xs = sum_list (map (\<lambda>(k, v). length k + length v) xs)"

definition native_setItem :: "area \<Rightarrow> jsval \<Rightarrow> jsval \<Rightarrow> world \<Rightarrow> (error + unit) \<times> world" where
  "native_setItem a key val w =
     (let w1 = w\<lparr>trace := trace w @ [NativeSetItem a key val]\<rparr>
      in case ToString key of
           Inl e \<Rightarrow> (Inl e, w1)
         | Inr k \<Rightarrow>
             (case ToString val of
                Inl e \<Rightarrow> (Inl e, w1)
              | Inr v \<Rightarrow>
                  (if storage_size (AList.update k v (items_of a w1)) > storage_quota w1
                   then (Inl QuotaExceededError, w1)
                   else (Inr (), set_items a (AList.update k v (items_of a w1)) w1))))"

definition native_removeItem :: "area \<Rightarrow> jsval \<Rightarrow> world \<Rightarrow> (error + unit) \<times> world" where
  "native_removeItem a key w =
     (case ToString key of
        Inl e \<Rightarrow> (Inl e, w)
      | Inr k \<Rightarrow> (Inr (), set_items a (AList.delete k (items_of a w)) w))"

definition native_clear :: "area \<Rightarrow> world \<Rightarrow> (error + unit) \<times> world" where
  "native_clear a w = (Inr (), set_items a [] w)"

definition Object_keys :: "(jsstring \<times> jsstring) list \<Rightarrow> jsstring list" where
  "Object_keys xs = map fst xs"

section \<open>Key matcher\<close>

text \<open>
  The callback of \<^verbatim>\<open>CONFIG.syncKeys.some\<close>, for one rule, and \<^verbatim>\<open>some\<close> itself, on
  the \<^verbatim>\<open>lastIndex\<close> of the regular expression objects.
\<close>

fun pattern_matches :: "jsval \<Rightarrow> jsval \<Rightarrow> (nat \<Rightarrow> nat) \<Rightarrow> (error + bool) \<times> (nat \<Rightarrow> nat)" where
  "pattern_matches (JStr s) key li = (Inr (JStr s = key), li)"
| "pattern_matches (JRegExp a R) key li =
     (case ToString key of
        Inl e \<Rightarrow> (Inl e, li)
      | Inr k \<Rightarrow> (case RegExp_test a R k li of (b, li1) \<Rightarrow> (Inr b, li1)))"
| "pattern_matches p key li = (Inr False, li)"

fun some :: "jsval list \<Rightarrow> jsval \<Rightarrow> (nat \<Rightarrow> nat) \<Rightarrow> (error + bool) \<times> (nat \<Rightarrow> nat)" where
  "some [] key li = (Inr False, li)"
| "some (p # ps) key li =
     (case pattern_matches p key li of
        (Inl e, li1) \<Rightarrow> (Inl e, li1)
      | (Inr b, li1) \<Rightarrow> (if b then (Inr True, li1) else some ps key li1))"

text \<open>
  Reading \<^verbatim>\<open>.length\<close> and calling \<^verbatim>\<open>.some\<close> on a \<^verbatim>\<open>syncKeys\<close> that is not an
  array throws, except that the empty string has length 0.
\<close>

definition shouldSync :: "jsval \<Rightarrow> world \<Rightarrow> (error + bool) \<times> world" where
  "shouldSync key w =
     (if \<not> truthy key then (Inr False, w)
      else case syncKeys (CONFIG w) of
             JArr rules \<Rightarrow>
               (if length rules = 0 then (Inr True, w)
                else (case some rules key (lastIndex w) of
                        (r, li) \<Rightarrow> (r, w\<lparr>lastIndex := li\<rparr>)))
           | JStr s \<Rightarrow> (if length s = 0 then (Inr True, w) else (Inl TypeError, w))
           | _ \<Rightarrow> (Inl TypeError, w))"

section \<open>Cookie codec\<close>

definition getStorageObjects :: "config \<Rightarrow> area list" where
  "getStorageObjects cfg =
     (if storageType cfg = JStr (js ''localStorage'') \<or> storageType cfg = JStr (js ''both'')
      then [localStorage] else [])
     @ (if storageType cfg = JStr (js ''sessionStorage'') \<or> storageType cfg = JStr (js ''both'')
        then [sessionStorage] else [])"

definition getStorageName :: "area \<Rightarrow> jsstring" where
  "getStorageName storage =
     (if storage = localStorage then js ''localStorage'' else js ''sessionStorage'')"

text \<open>
  The body of the \<^verbatim>\<open>try\<close> block of \<^verbatim>\<open>writeToCookie\<close>. \<^verbatim>\<open>CONFIG.cookiePrefix +
  sanitizedKey\<close> and the template literal convert the configured values to strings.
\<close>

definition writeToCookie_try :: "jsval \<Rightarrow> jsval \<Rightarrow> world \<Rightarrow> (error + bool) \<times> world" where
  "writeToCookie_try key val w =
     (case sanitizeKey key of
        None \<Rightarrow> (Inr False, w)
      | Some sanitizedKey \<Rightarrow>
          (case sanitizeValue val of
             Inl e \<Rightarrow> (Inl e, w)
           | Inr None \<Rightarrow> (Inr False, w)
           | Inr (Some sanitizedValue) \<Rightarrow>
               (case ToString (cookiePrefix (CONFIG w)) of
                  Inl e \<Rightarrow> (Inl e, w)
                | Inr prefix \<Rightarrow>
                    (let cookieName = prefix @ sanitizedKey;
                         domain = getParentDomain (hostname w)
                     in case encodeURIComponent sanitizedValue of
                          Inl e \<Rightarrow> (Inl e, w)
                        | Inr encodedValue \<Rightarrow>
                            (case ToString (cookieMaxAge (CONFIG w)) of
                               Inl e \<Rightarrow> (Inl e, w)
                             | Inr maxAge \<Rightarrow>
                                 (Inr True,
                                  set_document_cookie
                                    (cookieName @ js ''='' @ encodedValue @ js ''; max-age=''
                                     @ maxAge @ js ''; domain='' @ domain
                                     @ js ''; path=/; SameSite=Lax'') w))))))"

definition writeToCookie :: "jsval \<Rightarrow> jsval \<Rightarrow> world \<Rightarrow> (error + bool) \<times> world" where
  "writeToCookie key val w =
     (case writeToCookie_try key val w of
        (Inl e, w1) \<Rightarrow> (Inr False, w1)
      | (Inr r, w1) \<Rightarrow> (Inr r, w1))"

definition deleteFromCookie_try :: "jsval \<Rightarrow> world \<Rightarrow> (error + bool) \<times> world" where
  "deleteFromCookie_try key w =
     (case sanitizeKey key of
        None \<Rightarrow> (Inr False, w)
      | Some sanitizedKey \<Rightarrow>
          (case ToString (cookiePrefix (CONFIG w)) of
             Inl e \<Rightarrow> (Inl e, w)
           | Inr prefix \<Rightarrow>
               (let cookieName = prefix @ sanitizedKey;
                    domain = getParentDomain (hostname w)
                in (Inr True,
                    set_document_cookie
                      (cookieName @ js ''=; max-age=0; domain='' @ domain
                       @ js ''; path=/; SameSite=Lax'') w))))"

definition deleteFromCookie :: "jsval \<Rightarrow> world \<Rightarrow> (error + bool) \<times> world" where
  "deleteFromCookie key w =
     (case deleteFromCookie_try key w of
        (Inl e, w1) \<Rightarrow> (Inr False, w1)
      | (Inr r, w1) \<Rightarrow> (Inr r, w1))"

text \<open>The \<^verbatim>\<open>for\<close> loop of \<^verbatim>\<open>readFromCookie\<close> over the pieces of \<^verbatim>\<open>document.cookie\<close>.\<close>

fun find_cookie :: "jsstring \<Rightarrow> jsstring list \<Rightarrow> jsstring option" where
  "find_cookie cookieName [] = None"
| "find_cookie cookieName (cookie # rest) =
     (let trimmed = trim cookie
      in case indexOf trimmed equals of
           None \<Rightarrow> find_cookie cookieName rest
         | Some equalIndex \<Rightarrow>
             (let name = take equalIndex trimmed;
                  val = drop (equalIndex + 1) trimmed
              in if name = cookieName
                 then (case decodeURIComponent val of Inl e \<Rightarrow> None | Inr v \<Rightarrow> Some v)
                 else find_cookie cookieName rest))"

definition readFromCookie_try :: "jsval \<Rightarrow> world \<Rightarrow> error + jsstring option" where
  "readFromCookie_try key w =
     (case sanitizeKey key of
        None \<Rightarrow> Inr None
      | Some sanitizedKey \<Rightarrow>
          (case ToString (cookiePrefix (CONFIG w)) of
             Inl e \<Rightarrow> Inl e
           | Inr prefix \<Rightarrow>
               (let cookieName = prefix @ sanitizedKey
                in if document_cookie w = [] then Inr None
                   else Inr (find_cookie cookieName (split (document_cookie w) semicolon)))))"

definition readFromCookie :: "jsval \<Rightarrow> world \<Rightarrow> error + jsstring option" where
  "readFromCookie key w =
     (case readFromCookie_try key w of Inl e \<Rightarrow> Inr None | Inr r \<Rightarrow> Inr r)"

subsection \<open>Enumerating the prefixed cookies\<close>

text \<open>
  \<^verbatim>\<open>syncData\<close> is an object: its own keys are enumerated with the array indices first,
  in ascending order, then the other keys in insertion order; assigning \<^verbatim>\<open>__proto__\<close>
  a string creates no property. The list holds the properties in enumeration order.
\<close>

definition array_index :: "jsstring \<Rightarrow> nat option" where
  "array_index k =
     (if k \<noteq> [] \<and> list_all is_digit k \<and> (length k = 1 \<or> hd k \<noteq> 0x30)
         \<and> digits_value k < 2 ^ 32 - 1
      then Some (digits_value k) else None)"

fun insert_index :: "nat \<Rightarrow> jsstring \<Rightarrow> jsstring \<Rightarrow> (jsstring \<times> jsstring) list
    \<Rightarrow> (jsstring \<times> jsstring) list" where
  "insert_index i k v [] = [(k, v)]"
| "insert_index i k v (p # ps) =
     (case array_index (fst p) of
        None \<Rightarrow> (k, v) # p # ps
      | Some j \<Rightarrow> (if i < j then (k, v) # p # ps else p # insert_index i k v ps))"

definition set_property :: "(jsstring \<times> jsstring) list \<Rightarrow> jsstring \<Rightarrow> jsstring
    \<Rightarrow> (jsstring \<times> jsstring) list" where
  "set_property obj k v =
     (if k = js ''__proto__'' then obj
      else if k \<in> set (map fst obj) then AList.update k v obj
      else case array_index k of
             None \<Rightarrow> obj @ [(k, v)]
           | Some i \<Rightarrow> insert_index i k v obj)"

text \<open>\<^verbatim>\<open>name.startsWith(CONFIG.cookiePrefix)\<close> and \<^verbatim>\<open>CONFIG.cookiePrefix.length\<close>.\<close>

definition name_startsWith :: "jsstring \<Rightarrow> jsval \<Rightarrow> error + bool" where
  "name_startsWith name p =
     (if is_RegExp p then Inl TypeError
      else case ToString p of Inl e \<Rightarrow> Inl e | Inr s \<Rightarrow> Inr (startsWith name s))"

fun length_property :: "jsval \<Rightarrow> error + nat" where
  "length_property JUndefined = Inl TypeError"
| "length_property JNull = Inl TypeError"
| "length_property (JStr s) = Inr (length s)"
| "length_property (JArr xs) = Inr (length xs)"
| "length_property v = Inr 0"

text \<open>
  The loop of \<^verbatim>\<open>getAllSyncCookies\<close>; an error inside it is caught and ends the loop
  with the properties collected so far.
\<close>

fun collect_sync_cookies :: "config \<Rightarrow> jsstring list \<Rightarrow> (jsstring \<times> jsstring) list
    \<Rightarrow> (jsstring \<times> jsstring) list" where
  "collect_sync_cookies cfg [] syncData = syncData"
| "collect_sync_cookies cfg (cookie # rest) syncData =
     (let trimmed = trim cookie
      in case indexOf trimmed equals of
           None \<Rightarrow> collect_sync_cookies cfg rest syncData
         | Some equalIndex \<Rightarrow>
             (let name = take equalIndex trimmed;
                  val = drop (equalIndex + 1) trimmed
              in if name = [] then collect_sync_cookies cfg rest syncData
                 else case name_startsWith name (cookiePrefix cfg) of
                        Inl e \<Rightarrow> syncData
                      | Inr b \<Rightarrow>
                          (if \<not> b then collect_sync_cookies cfg rest syncData
                           else case length_property (cookiePrefix cfg) of
                                  Inl e \<Rightarrow> syncData
                                | Inr n \<Rightarrow>
                                    (case decodeURIComponent val of
                                       Inl e \<Rightarrow> syncData
                                     | Inr v \<Rightarrow>
                                         collect_sync_cookies cfg rest
                                           (set_property syncData (drop n name) v)))))"

definition getAllSyncCookies :: "world \<Rightarrow> (jsstring \<times> jsstring) list" where
  "getAllSyncCookies w =
     collect_sync_cookies (CONFIG w) (split (document_cookie w) semicolon) []"

section \<open>Readiness signal\<close>

text \<open>
  \<^verbatim>\<open>window.dispatchEvent\<close> runs the module's own \<^verbatim>\<open>storagesynccomplete\<close> listener
  if it has been added; the listener resolves the promise and clears
  \<^verbatim>\<open>syncCompleteResolve\<close>.
\<close>

definition dispatchSyncCompleteEvent :: "SyncReport \<Rightarrow> world \<Rightarrow> world" where
  "dispatchSyncCompleteEvent detail w =
     (let w1 = w\<lparr>trace := trace w @ [SyncComplete detail]\<rparr>
      in if complete_listener w1 \<and> syncCompleteResolve w1
         then w1\<lparr>syncCompletePromise :=
                   (case syncCompletePromise w1 of None \<Rightarrow> Some detail | Some r \<Rightarrow> Some r),
                 syncCompleteResolve := False\<rparr>
         else w1)"

definition ready :: "world \<Rightarrow> SyncReport option" where
  "ready w = syncCompletePromise w"

section \<open>Interception of the storage primitives\<close>

definition shouldSyncStorage :: "config \<Rightarrow> area \<Rightarrow> bool" where
  "shouldSyncStorage cfg storage =
     (let isLocalStorage = (storage = localStorage);
          isSessionStorage = (storage = sessionStorage)
      in (isLocalStorage \<and> (storageType cfg = JStr (js ''localStorage'')
                            \<or> storageType cfg = JStr (js ''both'')))
         \<or> (isSessionStorage \<and> (storageType cfg = JStr (js ''sessionStorage'')
                                 \<or> storageType cfg = JStr (js ''both''))))"

fun call_setItem :: "primitive \<Rightarrow> area \<Rightarrow> jsval \<Rightarrow> jsval \<Rightarrow> world \<Rightarrow> (error + unit) \<times> world" where
  "call_setItem Native this key val w = native_setItem this key val w"
| "call_setItem (Wrapper original) this key val w =
     (case call_setItem original this key val w of
        (Inl e, w1) \<Rightarrow> (Inl e, w1)
      | (Inr u, w1) \<Rightarrow>
          (if shouldSyncStorage (CONFIG w1) this
           then (case shouldSync key w1 of
                   (Inl e, w2) \<Rightarrow> (Inl e, w2)
                 | (Inr b, w2) \<Rightarrow>
                     (if b
                      then (case writeToCookie key val w2 of
                              (Inl e, w3) \<Rightarrow> (Inl e, w3)
                            | (Inr r, w3) \<Rightarrow> (Inr (), w3))
                      else (Inr (), w2)))
           else (Inr (), w1)))"

fun call_removeItem :: "primitive \<Rightarrow> area \<Rightarrow> jsval \<Rightarrow> world \<Rightarrow> (error + unit) \<times> world" where
  "call_removeItem Native this key w = native_removeItem this key w"
| "call_removeItem (Wrapper original) this key w =
     (case call_removeItem original this key w of
        (Inl e, w1) \<Rightarrow> (Inl e, w1)
      | (Inr u, w1) \<Rightarrow>
          (if shouldSyncStorage (CONFIG w1) this
           then (case shouldSync key w1 of
                   (Inl e, w2) \<Rightarrow> (Inl e, w2)
                 | (Inr b, w2) \<Rightarrow>
                     (if b
                      then (case deleteFromCookie key w2 of
                              (Inl e, w3) \<Rightarrow> (Inl e, w3)
                            | (Inr r, w3) \<Rightarrow> (Inr (), w3))
                      else (Inr (), w2)))
           else (Inr (), w1)))"

text \<open>The \<^verbatim>\<open>keys.forEach\<close> of the \<^verbatim>\<open>clear\<close> wrapper.\<close>

fun delete_synced_keys :: "jsstring list \<Rightarrow> world \<Rightarrow> (error + unit) \<times> world" where
  "delete_synced_keys [] w = (Inr (), w)"
| "delete_synced_keys (key # rest) w =
     (case shouldSync (JStr key) w of
        (Inl e, w1) \<Rightarrow> (Inl e, w1)
      | (Inr b, w1) \<Rightarrow>
          (if b then delete_synced_keys rest (snd (deleteFromCookie (JStr key) w1))
           else delete_synced_keys rest w1))"

fun call_clear :: "primitive \<Rightarrow> area \<Rightarrow> world \<Rightarrow> (error + unit) \<times> world" where
  "call_clear Native this w = native_clear this w"
| "call_clear (Wrapper original) this w =
     (if shouldSyncStorage (CONFIG w) this
      then (let keys = Object_keys (items_of this w)
            in case call_clear original this w of
                 (Inl e, w1) \<Rightarrow> (Inl e, w1)
               | (Inr u, w1) \<Rightarrow> delete_synced_keys keys w1)
      else call_clear original this w)"

definition setupLocalChangeDetection :: "world \<Rightarrow> world" where
  "setupLocalChangeDetection w =
     w\<lparr>Storage_setItem := Wrapper (originalSetItem w),
       Storage_removeItem := Wrapper (originalRemoveItem w),
       Storage_clear := Wrapper (originalClear w)\<rparr>"

section \<open>Cross-tab listener\<close>

record StorageEvent =
  ev_key :: "jsstring option"
  ev_oldValue :: "jsstring option"
  ev_newValue :: "jsstring option"
  ev_storageArea :: "area option"

definition storage_listener :: "StorageEvent \<Rightarrow> world \<Rightarrow> (error + unit) \<times> world" where
  "storage_listener ev w =
     (let isLocalStorage = (ev_storageArea ev = Some localStorage);
          isSessionStorage = (ev_storageArea ev = Some sessionStorage);
          shouldSyncThisStorage =
            ((isLocalStorage \<and> (storageType (CONFIG w) = JStr (js ''localStorage'')
                                \<or> storageType (CONFIG w) = JStr (js ''both'')))
             \<or> (isSessionStorage \<and> (storageType (CONFIG w) = JStr (js ''sessionStorage'')
                                     \<or> storageType (CONFIG w) = JStr (js ''both''))))
      in if \<not> shouldSyncThisStorage then (Inr (), w)
         else case ev_key ev of
                None \<Rightarrow> (Inr (), w)
              | Some k \<Rightarrow>
                  (if k = [] then (Inr (), w)
                   else case shouldSync (JStr k) w of
                          (Inl e, w1) \<Rightarrow> (Inl e, w1)
                        | (Inr b, w1) \<Rightarrow>
                            (if b
                             then (case ev_newValue ev of
                                     None \<Rightarrow> (Inr (), snd (deleteFromCookie (JStr k) w1))
                                   | Some v \<Rightarrow> (Inr (), snd (writeToCookie (JStr k) (JStr v) w1)))
                             else (Inr (), w1))))"

definition setupStorageListener :: "world \<Rightarrow> world" where
  "setupStorageListener w = w\<lparr>storage_listeners := storage_listeners w + 1\<rparr>"

text \<open>
  The browser delivers a storage event of another tab to every listener the module has
  added; what a listener throws is reported and does not stop the next one.
\<close>

fun deliver_storage_event :: "nat \<Rightarrow> StorageEvent \<Rightarrow> world \<Rightarrow> world" where
  "deliver_storage_event 0 ev w = w"
| "deliver_storage_event (Suc n) ev w =
     deliver_storage_event n ev (snd (storage_listener ev w))"

definition storage_event :: "StorageEvent \<Rightarrow> world \<Rightarrow> world" where
  "storage_event ev w = deliver_storage_event (storage_listeners w) ev w"

section \<open>Sync engine\<close>

text \<open>
  The body of the inner loop of \<^verbatim>\<open>syncCookiesToStorage\<close>, for one entry of
  \<^verbatim>\<open>Object.entries(syncData)\<close> and one storage area, on the counters of the loop. What
  \<^verbatim>\<open>originalSetItem\<close> throws is caught and the loop goes on; what \<^verbatim>\<open>shouldSync\<close>
  throws leaves the function.
\<close>

definition sync_entry :: "area \<Rightarrow> jsstring \<times> jsstring \<Rightarrow> nat \<times> syncedKey list \<times> skippedKey list
    \<Rightarrow> world \<Rightarrow> (error + nat \<times> syncedKey list \<times> skippedKey list) \<times> world" where
  "sync_entry storage entry acc w =
     (case (entry, acc) of ((key, val), (syncCount, synced, skipped)) \<Rightarrow>
        (case shouldSync (JStr key) w of
           (Inl e, w0) \<Rightarrow> (Inl e, w0)
         | (Inr b, w0) \<Rightarrow>
             (if \<not> b then (Inr (syncCount, synced, skipped), w0)
              else
                (let existingValue = getItem storage key w0;
                     shouldWrite = (truthy (overwriteExisting (CONFIG w0)) \<or> existingValue = None)
                 in if shouldWrite \<and> val \<noteq> []
                    then (case call_setItem (originalSetItem w0) storage (JStr key) (JStr val) w0 of
                            (Inr u, w1) \<Rightarrow>
                              (Inr (syncCount + 1,
                                    synced @ [SyncedKey key (getStorageName storage)
                                                (existingValue \<noteq> None)],
                                    skipped), w1)
                          | (Inl e, w1) \<Rightarrow> (Inr (syncCount, synced, skipped), w1))
                    else if existingValue \<noteq> None \<and> \<not> truthy (overwriteExisting (CONFIG w0))
                    then (Inr (syncCount, synced,
                               skipped @ [SkippedKey key (getStorageName storage) (js ''exists'')]),
                          w0)
                    else (Inr (syncCount, synced, skipped), w0)))))"

text \<open>The inner loop over the entries, and the outer loop over the storage areas.\<close>

fun sync_entries :: "area \<Rightarrow> (jsstring \<times> jsstring) list \<Rightarrow> nat \<times> syncedKey list \<times> skippedKey list
    \<Rightarrow> world \<Rightarrow> (error + nat \<times> syncedKey list \<times> skippedKey list) \<times> world" where
  "sync_entries storage [] acc w = (Inr acc, w)"
| "sync_entries storage (entry # rest) acc w =
     (case sync_entry storage entry acc w of
        (Inl e, w1) \<Rightarrow> (Inl e, w1)
      | (Inr acc1, w1) \<Rightarrow> sync_entries storage rest acc1 w1)"

fun sync_storages :: "area list \<Rightarrow> (jsstring \<times> jsstring) list \<Rightarrow> nat \<Rightarrow> syncedKey list
    \<Rightarrow> skippedKey list \<Rightarrow> world
    \<Rightarrow> (error + nat \<times> syncedKey list \<times> skippedKey list) \<times> world" where
  "sync_storages [] syncData totalSyncCount synced skipped w =
     (Inr (totalSyncCount, synced, skipped), w)"
| "sync_storages (storage # rest) syncData totalSyncCount synced skipped w =
     (case sync_entries storage syncData (0, synced, skipped) w of
        (Inl e, w1) \<Rightarrow> (Inl e, w1)
      | (Inr (syncCount, synced1, skipped1), w1) \<Rightarrow>
          sync_storages rest syncData (totalSyncCount + syncCount) synced1 skipped1 w1)"

definition syncCookiesToStorage :: "world \<Rightarrow> (error + unit) \<times> world" where
  "syncCookiesToStorage w =
     (let syncData = getAllSyncCookies w;
          storages = getStorageObjects (CONFIG w)
      in case sync_storages storages syncData 0 [] [] w of
           (Inl e, w1) \<Rightarrow> (Inl e, w1)
         | (Inr (totalSyncCount, synced, skipped), w1) \<Rightarrow>
             (Inr (),
              dispatchSyncCompleteEvent
                \<lparr> syncedCount = totalSyncCount,
                  syncedKeys = synced,
                  skippedKeys = skipped,
                  totalCookies = length (Object_keys syncData) \<rparr> w1))"

section \<open>Initialization\<close>

text \<open>
  \<^verbatim>\<open>isEnvironmentSupported\<close> in a page that has \<^verbatim>\<open>Storage\<close>, both storage areas and
  \<^verbatim>\<open>document.cookie\<close>: what remains is the test write, made through the current
  \<^verbatim>\<open>Storage.prototype\<close> methods.
\<close>

definition isEnvironmentSupported :: "world \<Rightarrow> bool \<times> world" where
  "isEnvironmentSupported w =
     (let testKey = JStr (js ''__storage_sync_test__'')
      in case call_setItem (Storage_setItem w) localStorage testKey (JStr (js ''test'')) w of
           (Inl e, w1) \<Rightarrow> (False, w1)
         | (Inr u, w1) \<Rightarrow>
             (case call_removeItem (Storage_removeItem w1) localStorage testKey w1 of
                (Inl e, w2) \<Rightarrow> (False, w2)
              | (Inr u, w2) \<Rightarrow> (True, w2)))"

definition init :: "world \<Rightarrow> bool \<times> world" where
  "init w =
     (case isEnvironmentSupported w of
        (False, w1) \<Rightarrow> (False, w1)
      | (True, w1) \<Rightarrow>
          (case validateConfig (CONFIG w1) of
             Inl e \<Rightarrow> (False, w1)
           | Inr (configValid, c) \<Rightarrow>
               (let w2 = w1\<lparr>CONFIG := c\<rparr>
                in case syncCookiesToStorage w2 of
                     (Inl e, w3) \<Rightarrow> (False, w3)
                   | (Inr u, w3) \<Rightarrow> (True, setupLocalChangeDetection (setupStorageListener w3)))))"

text \<open>
  The statements of the module in the order they run when the script is loaded: the
  configuration, the original \<^verbatim>\<open>Storage.prototype\<close> methods, \<^verbatim>\<open>init()\<close>, then the
  promise and the listener that resolves it.
\<close>

definition module_load :: "world \<Rightarrow> world" where
  "module_load page =
     (let w0 = page\<lparr>CONFIG := CONFIG_default,
                    originalSetItem := Storage_setItem page,
                    originalRemoveItem := Storage_removeItem page,
                    originalClear := Storage_clear page,
                    storage_listeners := 0,
                    complete_listener := False,
                    syncCompleteResolve := False,
                    syncCompletePromise := None\<rparr>;
          (initSuccess, w1) = init w0;
          w2 = w1\<lparr>isInitialized := initSuccess\<rparr>;
          w3 = w2\<lparr>syncCompletePromise := None, syncCompleteResolve := True\<rparr>
      in w3\<lparr>complete_listener := True\<rparr>)"

definition reinitialize :: "world \<Rightarrow> bool \<times> world" where
  "reinitialize w = (let (r, w1) = init w in (r, w1\<lparr>isInitialized := r\<rparr>))"

text \<open>
  The application sets a configuration and calls \<^verbatim>\<open>reinitialize()\<close>, once for each
  configuration of the list.
\<close>

fun reinitialize_with :: "config list \<Rightarrow> world \<Rightarrow> world" where
  "reinitialize_with [] w = w"
| "reinitialize_with (c # cs) w = reinitialize_with cs (snd (reinitialize (w\<lparr>CONFIG := c\<rparr>)))"

section \<open>Notions of the specification\<close>

text \<open>The language of a regular expression, and the dotted-quad host names.\<close>

definition conc :: "jsstring set \<Rightarrow> jsstring set \<Rightarrow> jsstring set" where
  "conc A B = {u @ v | u v. u \<in> A \<and> v \<in> B}"

inductive_set star :: "jsstring set \<Rightarrow> jsstring set" for A :: "jsstring set" where
  star_empty: "[] \<in> star A"
| star_step: "u \<in> A \<Longrightarrow> v \<in> star A \<Longrightarrow> u @ v \<in> star A"

fun lang :: "rexp \<Rightarrow> jsstring set" where
  "lang Nothing = {}"
| "lang Empty = {[]}"
| "lang (Class p) = {[c] | c. p c}"
| "lang (Seq r s) = conc (lang r) (lang s)"
| "lang (Alt r s) = lang r \<union> lang s"
| "lang (Star r) = star (lang r)"

definition digits1 :: "jsstring \<Rightarrow> bool" where
  "digits1 a \<longleftrightarrow> a \<noteq> [] \<and> list_all is_digit a"

definition dotted_quad :: "jsstring \<Rightarrow> bool" where
  "dotted_quad h \<longleftrightarrow>
     (\<exists>a b c d. digits1 a \<and> digits1 b \<and> digits1 c \<and> digits1 d
        \<and> h = a @ [dot] @ b @ [dot] @ c @ [dot] @ d)"

text \<open>
  A rule matches a string key: a string rule by equality, a pattern when its matcher
  finds a match in the key, searching from the start. The key matcher accepts a key that
  is not empty when the rule list is empty or some rule matches.
\<close>

fun rule_matches :: "jsval \<Rightarrow> jsstring \<Rightarrow> bool" where
  "rule_matches (JStr s) k = (s = k)"
| "rule_matches (JRegExp a R) k = (RegExpSearch R k 0 \<noteq> None)"
| "rule_matches r k = False"

definition key_matches :: "jsval list \<Rightarrow> jsstring \<Rightarrow> bool" where
  "key_matches rules k \<longleftrightarrow> k \<noteq> [] \<and> (rules = [] \<or> (\<exists>r\<in>set rules. rule_matches r k))"

text \<open>A rule whose test does not depend on \<^verbatim>\<open>lastIndex\<close>: any rule but a global or sticky pattern.\<close>

fun stateless_rule :: "jsval \<Rightarrow> bool" where
  "stateless_rule (JRegExp a R) = (\<not> global R \<and> \<not> sticky R)"
| "stateless_rule r = True"

text \<open>The patterns \<^verbatim>\<open>/^chat_/\<close> and \<^verbatim>\<open>/^chat_/g\<close>, as objects 0 and 1.\<close>

definition chat_pattern :: "jsstring \<Rightarrow> RegExp" where
  "chat_pattern fl =
     \<lparr> source = js ''^chat_'', flags = fl,
       RegExpMatcher = (\<lambda>S i. if i = 0 \<and> startsWith S (js ''chat_'') then Some 5 else None) \<rparr>"

definition example_rules :: "jsval list" where
  "example_rules = [JStr (js ''exact1''), JRegExp 0 (chat_pattern [])]"

definition global_rules :: "jsval list" where
  "global_rules = [JRegExp 1 (chat_pattern (js ''g''))]"

text \<open>
  The part of the world that neither the cookie jar, the storage areas, the state of the
  patterns nor the trace belong to, and the assignments to \<^verbatim>\<open>document.cookie\<close> among
  the events.
\<close>

definition frame :: "world \<Rightarrow> world" where
  "frame w = w\<lparr>cookies := [], localStorage_items := [], sessionStorage_items := [],
       lastIndex := (\<lambda>a. 0), trace := []\<rparr>"

fun is_CookieAssigned :: "event \<Rightarrow> bool" where
  "is_CookieAssigned (CookieAssigned s) = True"
| "is_CookieAssigned e = False"

text \<open>A page as the browser hands it to the script, for the concrete checks.\<close>

definition example_page :: world where
  "example_page =
     \<lparr> CONFIG = CONFIG_default,
       hostname = js ''app.example.com'',
       cookies = [],
       cookie_limit = 4096,
       localStorage_items = [],
       sessionStorage_items = [],
       storage_quota = 5000000,
       Storage_setItem = Native,
       Storage_removeItem = Native,
       Storage_clear = Native,
       originalSetItem = Native,
       originalRemoveItem = Native,
       originalClear = Native,
       storage_listeners = 0,
       complete_listener = False,
       syncCompleteResolve = False,
       syncCompletePromise = None,
       isInitialized = False,
       lastIndex = (\<lambda>a. 0),
       trace = [] \<rparr>"

text \<open>The page configured with the global pattern as its only rule.\<close>

definition chat_page :: world where
  "chat_page = example_page\<lparr>CONFIG := CONFIG_default\<lparr>syncKeys := JArr global_rules\<rparr>\<rparr>"

text \<open>The completion events, and the native writes among the events of a trace.\<close>

fun is_SyncComplete :: "event \<Rightarrow> bool" where
  "is_SyncComplete (SyncComplete r) = True"
| "is_SyncComplete e = False"

definition native_writes :: "event list \<Rightarrow> (area \<times> jsval \<times> jsval) set" where
  "native_writes evs = {(a, k, v). NativeSetItem a k v \<in> set evs}"

text \<open>
  The write decision of a replay pass for one cookie entry and one storage area, on the
  state at the start of the pass.
\<close>

definition write_decision :: "world \<Rightarrow> area \<Rightarrow> jsstring \<Rightarrow> jsstring \<Rightarrow> bool" where
  "write_decision w a k v \<longleftrightarrow>
     (truthy (overwriteExisting (CONFIG w)) \<or> getItem a k w = None) \<and> v \<noteq> []"

text \<open>The report lists a key as synced to a storage area.\<close>

definition listed :: "syncedKey list \<Rightarrow> area \<Rightarrow> jsstring \<Rightarrow> bool" where
  "listed s a k \<longleftrightarrow> (\<exists>ov. SyncedKey k (getStorageName a) ov \<in> set s)"

text \<open>A page that holds sync cookies, and the same page with overwriting switched on.\<close>

definition cookie_page :: world where
  "cookie_page = example_page
     \<lparr>cookies := [(js ''sds_sync_theme'', js ''dark''), (js ''sds_sync_empty'', []),
                  (js ''other'', js ''x'')],
      localStorage_items := [(js ''lang'', js ''en'')]\<rparr>"

definition overwrite_page :: world where
  "overwrite_page = cookie_page\<lparr>CONFIG := CONFIG_default\<lparr>overwriteExisting := JBool True\<rparr>\<rparr>"

text \<open>
  The page with cookies configured with a string rule and a pattern that is not global,
  and the page with cookies whose local storage is full.
\<close>

definition theme_rules :: "jsval list" where
  "theme_rules = [JStr (js ''theme''), JRegExp 0 (chat_pattern [])]"

definition rules_page :: world where
  "rules_page = cookie_page\<lparr>CONFIG := CONFIG_default\<lparr>syncKeys := JArr theme_rules\<rparr>\<rparr>"

definition full_page :: world where
  "full_page = cookie_page\<lparr>storage_quota := 6\<rparr>"

text \<open>
  The reports and events of loading the script in the page with cookies, the page once
  loaded, and the page after further reinitializations.
\<close>

definition first_report :: SyncReport where
  "first_report = \<lparr> syncedCount = 1,
      syncedKeys = [SyncedKey (js ''theme'') (js ''localStorage'') False],
      skippedKeys = [], totalCookies = 2 \<rparr>"

definition second_report :: SyncReport where
  "second_report = \<lparr> syncedCount = 0, syncedKeys = [],
      skippedKeys = [SkippedKey (js ''theme'') (js ''localStorage'') (js ''exists'')],
      totalCookies = 2 \<rparr>"

definition test_write :: event where
  "test_write = NativeSetItem localStorage (JStr (js ''__storage_sync_test__'')) (JStr (js ''test''))"

definition theme_write :: event where
  "theme_write = NativeSetItem localStorage (JStr (js ''theme'')) (JStr (js ''dark''))"

definition loaded_page :: world where
  "loaded_page = cookie_page
     \<lparr>localStorage_items := [(js ''lang'', js ''en''), (js ''theme'', js ''dark'')],
      Storage_setItem := Wrapper Native,
      Storage_removeItem := Wrapper Native,
      Storage_clear := Wrapper Native,
      storage_listeners := 1,
      complete_listener := True,
      syncCompleteResolve := True,
      isInitialized := True,
      trace := [test_write, theme_write, SyncComplete first_report]\<rparr>"

definition test_cookie_set :: event where
  "test_cookie_set = CookieAssigned (js ''sds_sync___storage_sync_test__=test; max-age=31536000; domain=.example.com; path=/; SameSite=Lax'')"

definition test_cookie_delete :: event where
  "test_cookie_delete = CookieAssigned (js ''sds_sync___storage_sync_test__=; max-age=0; domain=.example.com; path=/; SameSite=Lax'')"

definition running_page :: "nat \<Rightarrow> bool \<Rightarrow> SyncReport option \<Rightarrow> event list \<Rightarrow> world" where
  "running_page n b p t = loaded_page
     \<lparr>storage_listeners := n, syncCompleteResolve := b, syncCompletePromise := p, trace := t\<rparr>"

definition reinit_events :: "event list" where
  "reinit_events = [test_write, test_cookie_set, test_cookie_delete, SyncComplete second_report]"

text \<open>The assignments to \<^verbatim>\<open>document.cookie\<close> in a trace.\<close>

definition cookie_writes :: "event list \<Rightarrow> nat" where
  "cookie_writes evs = length (filter is_CookieAssigned evs)"

text \<open>
  The interception is installed at most once: the original primitive is the browser's, and
  \<^verbatim>\<open>Storage.prototype.setItem\<close> is the browser's primitive or one wrapper around it.
\<close>

definition wrapper_installed_once :: "world \<Rightarrow> bool" where
  "wrapper_installed_once w \<longleftrightarrow>
     originalSetItem w = Native
     \<and> (if isInitialized w then Storage_setItem w = Wrapper Native
        else Storage_setItem w = Native \<or> Storage_setItem w = Wrapper Native)"




text \<open>
  A cookie prefix that the cookie string keeps whole: no semicolon, no equals sign, no
  leading white space. A jar that \<^verbatim>\<open>document.cookie\<close> shows faithfully: the names are
  not empty, have no semicolon, equals sign or leading white space, and the values have no
  semicolon or trailing white space. The value the jar holds for a name, decoded.
\<close>

definition prefix_ok :: "jsstring \<Rightarrow> bool" where
  "prefix_ok p \<longleftrightarrow> semicolon \<notin> set p \<and> equals \<notin> set p \<and> (p = [] \<or> \<not> is_space (hd p))"

definition pair_ok :: "jsstring \<times> jsstring \<Rightarrow> bool" where
  "pair_ok nv \<longleftrightarrow>
     fst nv \<noteq> [] \<and> semicolon \<notin> set (fst nv) \<and> equals \<notin> set (fst nv)
     \<and> \<not> is_space (hd (fst nv))
     \<and> semicolon \<notin> set (snd nv) \<and> (snd nv = [] \<or> \<not> is_space (last (snd nv)))"

definition jar_ok :: "(jsstring \<times> jsstring) list \<Rightarrow> bool" where
  "jar_ok jar \<longleftrightarrow> list_all pair_ok jar"


text \<open>
  A running page configured with the global pattern as its only rule, whose local storage
  holds two keys that the pattern matches, each with its cookie.
\<close>

definition clear_page :: world where
  "clear_page = chat_page
     \<lparr>cookies := [(js ''sds_sync_chat_a'', js ''1''), (js ''sds_sync_chat_b'', js ''2'')],
      localStorage_items := [(js ''chat_a'', js ''1''), (js ''chat_b'', js ''2'')],
      Storage_setItem := Wrapper Native,
      Storage_removeItem := Wrapper Native,
      Storage_clear := Wrapper Native,
      storage_listeners := 1,
      complete_listener := True,
      isInitialized := True\<rparr>"

section \<open>Domain resolver\<close>

lemma nullable_lang: "nullable r \<longleftrightarrow> [] \<in> lang r"
  by (induction r) (auto simp: conc_def intro: star.intros)

lemma conc_cons: "c # w \<in> conc A B \<longleftrightarrow>
    ([] \<in> A \<and> c # w \<in> B) \<or> (\<exists>u v. w = u @ v \<and> c # u \<in> A \<and> v \<in> B)"
  unfolding conc_def
  by (auto simp: Cons_eq_append_conv) 

lemma star_cons_D: "x \<in> star A \<Longrightarrow> x = c # w \<Longrightarrow> \<exists>u v. w = u @ v \<and> c # u \<in> A \<and> v \<in> star A"
proof (induction arbitrary: w rule: star.induct)
  case star_empty
  then show ?case by simp
next
  case (star_step u v)
  show ?case
  proof (cases u)
    case Nil
    with star_step show ?thesis by simp
  next
    case (Cons a u')
    with star_step.prems star_step.hyps show ?thesis by auto
  qed
qed

lemma star_cons: "c # w \<in> star A \<longleftrightarrow> (\<exists>u v. w = u @ v \<and> c # u \<in> A \<and> v \<in> star A)"
proof
  assume "c # w \<in> star A"
  then show "\<exists>u v. w = u @ v \<and> c # u \<in> A \<and> v \<in> star A" by (rule star_cons_D) simp
next
  assume "\<exists>u v. w = u @ v \<and> c # u \<in> A \<and> v \<in> star A"
  then obtain u v where "w = u @ v" "c # u \<in> A" "v \<in> star A" by blast
  then show "c # w \<in> star A" using star_step [of "c # u" A v] by simp
qed

lemma deriv_lang: "w \<in> lang (deriv c r) \<longleftrightarrow> c # w \<in> lang r"
proof (induction r arbitrary: w)
  case (Seq r s)
  then show ?case by (auto simp: conc_cons nullable_lang) (auto simp: conc_def)
next
  case (Star r)
  then show ?case by (auto simp: star_cons) (auto simp: conc_def)
qed auto

lemma anchored_test_lang: "anchored_test r s \<longleftrightarrow> s \<in> lang r"
  by (induction s arbitrary: r) (auto simp: nullable_lang deriv_lang)

lemma star_digits: "w \<in> star {[c] | c. is_digit c} \<longleftrightarrow> list_all is_digit w"
proof
  assume "w \<in> star {[c] | c. is_digit c}"
  then show "list_all is_digit w" by induction auto
next
  assume "list_all is_digit w"
  then show "w \<in> star {[c] | c. is_digit c}"
  proof (induction w)
    case Nil
    show ?case by (rule star_empty)
  next
    case (Cons a w)
    then have "[a] \<in> {[c] | c. is_digit c}" "w \<in> star {[c] | c. is_digit c}" by auto
    then have "[a] @ w \<in> star {[c] | c. is_digit c}" by (rule star_step)
    then show ?case by simp
  qed
qed

lemma concI: "u \<in> A \<Longrightarrow> v \<in> B \<Longrightarrow> u @ v \<in> conc A B"
  unfolding conc_def by blast

lemma lang_digits1: "lang (OneOrMore (Class is_digit)) = {a. digits1 a}"
proof -
  have "w \<in> lang (OneOrMore (Class is_digit)) \<longleftrightarrow> digits1 w" for w
  proof
    assume "w \<in> lang (OneOrMore (Class is_digit))"
    then show "digits1 w"
      unfolding OneOrMore_def digits1_def by (auto simp: conc_def star_digits)
  next
    assume "digits1 w"
    then obtain a v where w: "w = [a] @ v" and a: "is_digit a" and v: "list_all is_digit v"
      unfolding digits1_def by (cases w) auto
    have "[a] \<in> lang (Class is_digit)" using a by simp
    moreover have "v \<in> lang (Star (Class is_digit))" using v by (simp add: star_digits)
    ultimately show "w \<in> lang (OneOrMore (Class is_digit))"
      unfolding OneOrMore_def w lang.simps(4) by (rule concI)
  qed
  then show ?thesis by blast
qed

lemma lang_dot: "lang (Class (\<lambda>c. c = dot)) = {[dot]}"
  by auto

lemma ipv4_pattern_dotted_quad: "anchored_test ipv4_pattern h \<longleftrightarrow> dotted_quad h"
proof -
  let ?D = "{a. digits1 a}"
  have l: "lang ipv4_pattern =
      conc ?D (conc {[dot]} (conc ?D (conc {[dot]} (conc ?D (conc {[dot]} ?D)))))"
    unfolding ipv4_pattern_def by (simp only: lang.simps(4) lang_digits1 lang_dot)
  have "h \<in> lang ipv4_pattern \<longleftrightarrow> dotted_quad h"
  proof
    assume "h \<in> lang ipv4_pattern"
    then show "dotted_quad h"
      unfolding l dotted_quad_def conc_def by auto
  next
    assume "dotted_quad h"
    then obtain a b c d where ds: "digits1 a" "digits1 b" "digits1 c" "digits1 d"
      and h: "h = a @ [dot] @ b @ [dot] @ c @ [dot] @ d"
      unfolding dotted_quad_def by blast
    have s1: "[dot] @ d \<in> conc {[dot]} ?D"
      by (rule concI) (use ds in simp_all)
    have s2: "c @ [dot] @ d \<in> conc ?D (conc {[dot]} ?D)"
      by (rule concI) (use ds s1 in simp_all)
    have s3: "[dot] @ c @ [dot] @ d \<in> conc {[dot]} (conc ?D (conc {[dot]} ?D))"
      by (rule concI) (use s2 in simp_all)
    have s4: "b @ [dot] @ c @ [dot] @ d
        \<in> conc ?D (conc {[dot]} (conc ?D (conc {[dot]} ?D)))"
      by (rule concI) (use ds s3 in simp_all)
    have s5: "[dot] @ b @ [dot] @ c @ [dot] @ d
        \<in> conc {[dot]} (conc ?D (conc {[dot]} (conc ?D (conc {[dot]} ?D))))"
      by (rule concI) (use s4 in simp_all)
    show "h \<in> lang ipv4_pattern"
      unfolding l h by (rule concI) (use ds s5 in simp_all)
  qed
  then show ?thesis by (simp add: anchored_test_lang)
qed

lemma split_no_sep: "sep \<notin> set s \<Longrightarrow> split s sep = [s]"
  by (induction s) auto

lemma split_append_sep: "sep \<notin> set a \<Longrightarrow> split (a @ sep # b) sep = a # split b sep"
  by (induction a) auto

lemma split_join:
  "ls \<noteq> [] \<Longrightarrow> \<forall>l\<in>set ls. sep \<notin> set l \<Longrightarrow> split (join ls [sep]) sep = ls"
proof (induction ls "[sep]" rule: join.induct)
  case 1
  then show ?case by simp
next
  case (2 p)
  then show ?case by (simp add: split_no_sep)
next
  case (3 p q ps)
  then show ?case by (simp add: split_append_sep)
qed

lemma drop_last_two:
  assumes "length ls > 2"
  shows "drop (length ls - 2) ls = [ls ! (length ls - 2), ls ! (length ls - 1)]"
proof -
  let ?n = "length ls"
  have 1: "drop (?n - 2) ls = ls ! (?n - 2) # drop (Suc (?n - 2)) ls"
    using Cons_nth_drop_Suc [of "?n - 2" ls] assms by simp
  have 2: "Suc (?n - 2) = ?n - 1" using assms by arith
  have 3: "drop (?n - 1) ls = ls ! (?n - 1) # drop (Suc (?n - 1)) ls"
    using Cons_nth_drop_Suc [of "?n - 1" ls] assms by simp
  have 4: "drop (Suc (?n - 1)) ls = []" using assms by simp
  show ?thesis by (simp only: 1 2 3 4)
qed

lemma join_last_two:
  "length ls > 2 \<Longrightarrow> join (drop (length ls - 2) ls) sep
     = ls ! (length ls - 2) @ sep @ ls ! (length ls - 1)"
  by (simp add: drop_last_two)

text \<open>
  Claim C8. For every host name, written as its labels joined by dots: \<^verbatim>\<open>localhost\<close> and
  the dotted quads are returned unchanged; otherwise, with more than two labels the result
  is a dot followed by the last two labels joined by a dot, and else a dot followed by the
  whole host name.
\<close>

theorem getParentDomain_spec:
  assumes "labels \<noteq> []" and "\<forall>l\<in>set labels. dot \<notin> set l"
    and "host = join labels (js ''.'')"
  shows "getParentDomain host =
     (if host = js ''localhost'' \<or> dotted_quad host then host
      else if length labels > 2
        then js ''.'' @ labels ! (length labels - 2) @ js ''.'' @ labels ! (length labels - 1)
      else js ''.'' @ host)"
proof -
  have d: "js ''.'' = [dot]" by (simp add: js_def dot_def)
  have "split host dot = labels"
    using assms by (simp add: d split_join)
  then show ?thesis
    unfolding getParentDomain_def Let_def
    by (simp add: ipv4_pattern_dotted_quad join_last_two)
qed

theorem getParentDomain_spec_witness:
  "[js ''app'', js ''example'', js ''com''] \<noteq> []
   \<and> js ''app.example.com'' = join [js ''app'', js ''example'', js ''com''] (js ''.'')
   \<and> getParentDomain (js ''app.example.com'') = js ''.example.com''
   \<and> getParentDomain (js ''192.168.1.1'') = js ''192.168.1.1''"
proof -
  have nq: "\<not> dotted_quad (js ''app.example.com'')"
    unfolding ipv4_pattern_dotted_quad [symmetric]
    by (simp add: ipv4_pattern_def OneOrMore_def js_def is_digit_def dot_def)
  have q: "dotted_quad (js ''192.168.1.1'')"
    unfolding ipv4_pattern_dotted_quad [symmetric]
    by (simp add: ipv4_pattern_def OneOrMore_def js_def is_digit_def dot_def)
  have h1: "[js ''app'', js ''example'', js ''com''] \<noteq> []" by simp
  have h2: "\<forall>l\<in>set [js ''app'', js ''example'', js ''com'']. dot \<notin> set l"
    by (simp add: js_def dot_def)
  have h3: "js ''app.example.com'' = join [js ''app'', js ''example'', js ''com''] (js ''.'')"
    by (simp add: js_def)
  have k1: "[js ''192'', js ''168'', js ''1'', js ''1''] \<noteq> []" by simp
  have k2: "\<forall>l\<in>set [js ''192'', js ''168'', js ''1'', js ''1'']. dot \<notin> set l"
    by (simp add: js_def dot_def)
  have k3: "js ''192.168.1.1'' = join [js ''192'', js ''168'', js ''1'', js ''1''] (js ''.'')"
    by (simp add: js_def)
  show ?thesis
    using getParentDomain_spec [OF h1 h2 h3] getParentDomain_spec [OF k1 k2 k3] nq q h2 h3
    by (simp add: js_def)
qed

section \<open>Key matcher\<close>

lemma RegExp_test_stateless:
  "\<not> global R \<Longrightarrow> \<not> sticky R \<Longrightarrow> RegExp_test a R k li = (RegExpSearch R k 0 \<noteq> None, li)"
  by (simp add: RegExp_test_def)

lemma pattern_matches_stateless:
  "stateless_rule r \<Longrightarrow> pattern_matches r (JStr k) li = (Inr (rule_matches r k), li)"
  by (cases r) (auto simp: RegExp_test_stateless)

lemma some_stateless:
  "list_all stateless_rule rules \<Longrightarrow>
     some rules (JStr k) li = (Inr (\<exists>r\<in>set rules. rule_matches r k), li)"
  by (induction rules) (auto simp: pattern_matches_stateless)

lemma shouldSync_stateless:
  assumes "syncKeys (CONFIG w) = JArr rules" and "list_all stateless_rule rules"
  shows "shouldSync (JStr k) w = (Inr (key_matches rules k), w)"
  using assms by (auto simp: shouldSync_def key_matches_def some_stateless)

lemma pattern_matches_string_total:
  "\<exists>b li'. pattern_matches r (JStr k) li = (Inr b, li')"
proof -
  have "\<not> isl (fst (pattern_matches r (JStr k) li))"
    by (cases r) (auto split: prod.splits)
  then show ?thesis
    by (cases "pattern_matches r (JStr k) li"; cases "fst (pattern_matches r (JStr k) li)") auto
qed

lemma some_string_total: "\<exists>b li'. some rules (JStr k) li = (Inr b, li')"
proof (induction rules arbitrary: li)
  case Nil
  show ?case by (rule exI [of _ False], rule exI [of _ li]) simp
next
  case (Cons r rules)
  obtain b li1 where p: "pattern_matches r (JStr k) li = (Inr b, li1)"
    using pattern_matches_string_total by blast
  show ?case using Cons [of li1] p by auto
qed

lemma shouldSync_world: "\<exists>li. snd (shouldSync key w) = w\<lparr>lastIndex := li\<rparr>"
proof -
  have "\<exists>li. w = w\<lparr>lastIndex := li\<rparr>" by (rule exI [of _ "lastIndex w"]) simp
  then show ?thesis
    by (auto simp: shouldSync_def split: jsval.splits prod.splits)
qed

lemma shouldSync_string_total:
  assumes "syncKeys (CONFIG w) = JArr rules"
  shows "\<exists>b li. shouldSync (JStr k) w = (Inr b, w\<lparr>lastIndex := li\<rparr>)"
proof -
  obtain b li' where s: "some rules (JStr k) (lastIndex w) = (Inr b, li')"
    using some_string_total by blast
  have e: "\<exists>li. w = w\<lparr>lastIndex := li\<rparr>" by (rule exI [of _ "lastIndex w"]) simp
  show ?thesis using assms s e by (auto simp: shouldSync_def)
qed

lemma chat_search:
  "RegExpSearch (chat_pattern fl) (js ''chat_id'') 0 = Some 5"
  "0x79 \<notin> set fl \<Longrightarrow> RegExpSearch (chat_pattern fl) (js ''chat_id'') 5 = None"
  by (simp_all add: RegExpSearch.simps chat_pattern_def js_def startsWith_def sticky_def
      AdvanceStringIndex_def)

text \<open>
  Claim C6. The claim says \<^verbatim>\<open>shouldSync\<close> returns true exactly when some rule matches the
  key. The source tests a pattern rule with \<^verbatim>\<open>pattern.test(key)\<close>, which for a global or
  sticky pattern starts at the \<^verbatim>\<open>lastIndex\<close> the previous call left in the object.
  With the rule list \<^verbatim>\<open>[/^chat_/g]\<close>, which \<^verbatim>\<open>validateConfig\<close> keeps, the rule matches
  the key \<^verbatim>\<open>chat_id\<close>, and three calls of \<^verbatim>\<open>shouldSync\<close> on that key, with the same
  configuration, return true, false and true.
\<close>

theorem shouldSync_global_pattern_alternates:
  "validateConfig (CONFIG chat_page) = Inr (True, CONFIG chat_page)
   \<and> key_matches global_rules (js ''chat_id'')
   \<and> fst (shouldSync (JStr (js ''chat_id'')) chat_page) = Inr True
   \<and> CONFIG (snd (shouldSync (JStr (js ''chat_id'')) chat_page)) = CONFIG chat_page
   \<and> fst (shouldSync (JStr (js ''chat_id'')) (snd (shouldSync (JStr (js ''chat_id'')) chat_page)))
       = Inr False
   \<and> fst (shouldSync (JStr (js ''chat_id''))
         (snd (shouldSync (JStr (js ''chat_id'')) (snd (shouldSync (JStr (js ''chat_id'')) chat_page)))))
       = Inr True"
proof -
  have g: "global (chat_pattern (js ''g''))" "0x79 \<notin> set (js ''g'')"
    by (simp_all add: global_def chat_pattern_def js_def)
  have k: "truthy (JStr (js ''chat_id''))" by (simp add: js_def)
  have v: "validateConfig (CONFIG chat_page) = Inr (True, CONFIG chat_page)"
    by (simp add: validateConfig_def chat_page_def example_page_def CONFIG_default_def
        validStorageTypes_def global_rules_def syncKeys_entry_ok_def js_def)
  have m: "key_matches global_rules (js ''chat_id'')"
    by (simp add: key_matches_def global_rules_def chat_search) (simp add: js_def)
  have 1: "shouldSync (JStr (js ''chat_id'')) chat_page
      = (Inr True, chat_page\<lparr>lastIndex := (\<lambda>a. 0)(1 := 5)\<rparr>)"
    using k by (simp add: shouldSync_def chat_page_def example_page_def global_rules_def
        RegExp_test_def g chat_search)
  have 2: "shouldSync (JStr (js ''chat_id'')) (chat_page\<lparr>lastIndex := (\<lambda>a. 0)(1 := 5)\<rparr>)
      = (Inr False, chat_page)"
    using k by (simp add: shouldSync_def chat_page_def example_page_def global_rules_def
        RegExp_test_def g chat_search fun_upd_idem)
  show ?thesis unfolding 1 snd_conv 2 unfolding 1 using v m by simp
qed

theorem shouldSync_global_pattern_alternates_witness:
  "fst (shouldSync (JStr (js ''chat_id'')) chat_page) = Inr True
   \<and> fst (shouldSync (JStr (js ''chat_id'')) (snd (shouldSync (JStr (js ''chat_id'')) chat_page)))
       = Inr False"
  using shouldSync_global_pattern_alternates by blast

section \<open>Configuration repair\<close>

text \<open>
  Claim C4. The claim says an invalid \<^verbatim>\<open>cookiePrefix\<close> is replaced by the documented
  default \<^verbatim>\<open>sds_sync_\<close>. \<^verbatim>\<open>validateConfig\<close> replaces an empty or non-string prefix
  by \<^verbatim>\<open>ls_sync_\<close>, which is not the default of \<^verbatim>\<open>CONFIG\<close>.
\<close>

theorem validateConfig_cookiePrefix_fallback:
  "validateConfig (CONFIG_default\<lparr>cookiePrefix := JStr []\<rparr>)
      = Inr (False, CONFIG_default\<lparr>cookiePrefix := JStr (js ''ls_sync_'')\<rparr>)
   \<and> JStr (js ''ls_sync_'') \<noteq> cookiePrefix CONFIG_default
   \<and> validateConfig (CONFIG_default\<lparr>cookiePrefix := JNum 5\<rparr>)
      = Inr (False, CONFIG_default\<lparr>cookiePrefix := JStr (js ''ls_sync_'')\<rparr>)"
  by (simp add: validateConfig_def CONFIG_default_def validStorageTypes_def js_def)

theorem validateConfig_cookiePrefix_fallback_witness:
  "map_sum id (cookiePrefix \<circ> snd) (validateConfig (CONFIG_default\<lparr>cookiePrefix := JStr []\<rparr>))
     = Inr (JStr (js ''ls_sync_''))
   \<and> JStr (js ''ls_sync_'') \<noteq> JStr (js ''sds_sync_'')"
  using validateConfig_cookiePrefix_fallback by (simp add: CONFIG_default_def js_def)

section \<open>What the operations change\<close>

lemma frame_CONFIG: "frame w' = frame w \<Longrightarrow> CONFIG w' = CONFIG w"
  by (drule arg_cong [where f = CONFIG]) (simp add: frame_def)

lemma frame_originalSetItem: "frame w' = frame w \<Longrightarrow> originalSetItem w' = originalSetItem w"
  by (drule arg_cong [where f = originalSetItem]) (simp add: frame_def)

lemma frame_storage_quota: "frame w' = frame w \<Longrightarrow> storage_quota w' = storage_quota w"
  by (drule arg_cong [where f = storage_quota]) (simp add: frame_def)

lemma frame_hostname: "frame w' = frame w \<Longrightarrow> hostname w' = hostname w"
  by (drule arg_cong [where f = hostname]) (simp add: frame_def)

lemma items_of_upd [simp]:
  "items_of a (w\<lparr>trace := t\<rparr>) = items_of a w"
  "items_of a (w\<lparr>cookies := c\<rparr>) = items_of a w"
  "items_of a (w\<lparr>lastIndex := li\<rparr>) = items_of a w"
  by (cases a; simp)+

lemma set_items_fields [simp]:
  "items_of a' (set_items a xs w) = (if a' = a then xs else items_of a' w)"
  "frame (set_items a xs w) = frame w"
  "trace (set_items a xs w) = trace w"
  "cookies (set_items a xs w) = cookies w"
  "lastIndex (set_items a xs w) = lastIndex w"
  by (cases a; cases a'; simp add: frame_def)+

lemma frame_upd [simp]:
  "frame (w\<lparr>trace := t\<rparr>) = frame w"
  "frame (w\<lparr>cookies := c\<rparr>) = frame w"
  "frame (w\<lparr>lastIndex := li\<rparr>) = frame w"
  by (simp_all add: frame_def)

lemma shouldSync_effect:
  assumes "shouldSync key w = (r, w')"
  shows "frame w' = frame w" "trace w' = trace w" "cookies w' = cookies w"
    "items_of a w' = items_of a w" "getItem a k w' = getItem a k w"
proof -
  obtain li where "w' = w\<lparr>lastIndex := li\<rparr>"
    using shouldSync_world [of key w] assms by auto
  then show "frame w' = frame w" "trace w' = trace w" "cookies w' = cookies w"
    "items_of a w' = items_of a w" "getItem a k w' = getItem a k w"
    by (simp_all add: getItem_def)
qed

lemma set_document_cookie_frame:
  "frame (set_document_cookie s w) = frame w"
  "trace (set_document_cookie s w) = trace w @ [CookieAssigned s]"
  "items_of a (set_document_cookie s w) = items_of a w"
  "lastIndex (set_document_cookie s w) = lastIndex w"
  by (simp_all add: set_document_cookie_def Let_def split: option.splits)

lemma writeToCookie_try_effect:
  "writeToCookie_try key val w = (r, w') \<Longrightarrow>
     frame w' = frame w \<and> items_of a w' = items_of a w \<and> lastIndex w' = lastIndex w
     \<and> (\<exists>evs. trace w' = trace w @ evs \<and> length evs \<le> 1 \<and> list_all is_CookieAssigned evs)"
  unfolding writeToCookie_try_def Let_def
  by (auto split: option.splits sum.splits simp: set_document_cookie_frame)

lemma writeToCookie_effect:
  "writeToCookie key val w = (r, w') \<Longrightarrow>
     frame w' = frame w \<and> items_of a w' = items_of a w \<and> lastIndex w' = lastIndex w
     \<and> (\<exists>evs. trace w' = trace w @ evs \<and> length evs \<le> 1 \<and> list_all is_CookieAssigned evs)"
  unfolding writeToCookie_def
  by (cases "writeToCookie_try key val w"; cases "fst (writeToCookie_try key val w)")
     (auto dest!: writeToCookie_try_effect [where a = a])

lemma native_setItem_effect:
  "native_setItem a key val w = (r, w') \<Longrightarrow>
     frame w' = frame w \<and> cookies w' = cookies w \<and> lastIndex w' = lastIndex w
     \<and> trace w' = trace w @ [NativeSetItem a key val]
     \<and> (\<forall>a' k'. a' \<noteq> a \<or> ToString key \<noteq> Inr k' \<longrightarrow> getItem a' k' w' = getItem a' k' w)"
  unfolding native_setItem_def Let_def getItem_def
  by (auto split: sum.splits if_splits simp: update_conv')

lemma call_setItem_effect:
  "call_setItem p a key val w = (r, w') \<Longrightarrow>
     frame w' = frame w
     \<and> (\<exists>evs. trace w' = trace w @ NativeSetItem a key val # evs \<and> list_all is_CookieAssigned evs)
     \<and> (\<forall>a' k'. a' \<noteq> a \<or> ToString key \<noteq> Inr k' \<longrightarrow> getItem a' k' w' = getItem a' k' w)"
proof (induction p arbitrary: r w')
  case Native
  then show ?case using native_setItem_effect [of a key val w r w'] by simp
next
  case (Wrapper p)
  obtain r1 w1 where c1: "call_setItem p a key val w = (r1, w1)" by (cases "call_setItem p a key val w")
  note ih = Wrapper.IH [OF c1]
  obtain r2 w2 where c2: "shouldSync key w1 = (r2, w2)" by (cases "shouldSync key w1")
  note e2 = shouldSync_effect [OF c2]
  obtain r3 w3 where c3: "writeToCookie key val w2 = (r3, w3)" by (cases "writeToCookie key val w2")
  have e3: "frame w3 = frame w2" "\<And>a. items_of a w3 = items_of a w2"
    and "\<exists>evs. trace w3 = trace w2 @ evs \<and> length evs \<le> 1 \<and> list_all is_CookieAssigned evs"
    using writeToCookie_effect [OF c3] by auto
  then obtain evs3 where t3: "trace w3 = trace w2 @ evs3" "list_all is_CookieAssigned evs3" by blast
  obtain evs1 where t1: "trace w1 = trace w @ NativeSetItem a key val # evs1"
    "list_all is_CookieAssigned evs1" using ih by blast
  have "w' = w1 \<or> w' = w2 \<or> w' = w3"
    using Wrapper.prems c1 c2 c3 by (auto split: sum.splits if_splits)
  then consider "w' = w1" | "w' = w2" | "w' = w3" by blast
  then show ?case
  proof cases
    case 1
    then show ?thesis using ih by simp
  next
    case 2
    have "trace w' = trace w @ NativeSetItem a key val # evs1" using 2 t1 e2(2) by simp
    then have "\<exists>evs. trace w' = trace w @ NativeSetItem a key val # evs \<and> list_all is_CookieAssigned evs"
      using t1(2) by blast
    moreover have "frame w' = frame w" using 2 e2(1) ih by simp
    moreover have "\<forall>a' k'. a' \<noteq> a \<or> ToString key \<noteq> Inr k' \<longrightarrow> getItem a' k' w' = getItem a' k' w"
      using 2 e2(5) ih by simp
    ultimately show ?thesis by blast
  next
    case 3
    have "trace w' = trace w @ NativeSetItem a key val # (evs1 @ evs3)"
      "list_all is_CookieAssigned (evs1 @ evs3)"
      using 3 t1 t3 e2(2) by simp_all
    then have "\<exists>evs. trace w' = trace w @ NativeSetItem a key val # evs \<and> list_all is_CookieAssigned evs"
      by blast
    moreover have "frame w' = frame w" using 3 e3 e2(1) ih by simp
    moreover have "\<forall>a' k'. a' \<noteq> a \<or> ToString key \<noteq> Inr k' \<longrightarrow> getItem a' k' w' = getItem a' k' w"
      using 3 e3(2) e2(4) ih by (simp add: getItem_def)
    ultimately show ?thesis by blast
  qed
qed

section \<open>Failing cookie writes\<close>

lemma writeToCookie_never_throws: "\<exists>b w'. writeToCookie key val w = (Inr b, w')"
  unfolding writeToCookie_def
  by (cases "writeToCookie_try key val w"; cases "fst (writeToCookie_try key val w)") auto

lemma writeToCookie_try_False: "writeToCookie_try key val w = (Inr False, w') \<Longrightarrow> w' = w"
  unfolding writeToCookie_try_def Let_def
  by (auto split: option.splits sum.splits)

lemma writeToCookie_try_Inl: "writeToCookie_try key val w = (Inl e, w') \<Longrightarrow> w' = w"
  unfolding writeToCookie_try_def Let_def
  by (auto split: option.splits sum.splits)

lemma writeToCookie_False_unchanged:
  "fst (writeToCookie key val w) = Inr False \<Longrightarrow> snd (writeToCookie key val w) = w"
  unfolding writeToCookie_def
  by (cases "writeToCookie_try key val w"; cases "fst (writeToCookie_try key val w)")
     (auto dest: writeToCookie_try_False writeToCookie_try_Inl)

lemma sanitizeKey_None_iff:
  "sanitizeKey key = None \<longleftrightarrow> (\<forall>s. key = JStr s \<longrightarrow> s = [] \<or> length s > 200)"
  by (cases key) auto

text \<open>
  Claim C7. \<^verbatim>\<open>writeToCookie\<close> never throws. It returns false when the key is not a
  string, is empty or is longer than 200 code units, and when the value's string is longer
  than 3500 code units. Whenever it returns false the world, and with it the cookie jar,
  is unchanged, so a key that read as null before still reads as null.
\<close>

theorem writeToCookie_failure:
  "(\<exists>b w'. writeToCookie key val w = (Inr b, w'))
   \<and> ((\<forall>s. key = JStr s \<longrightarrow> s = [] \<or> length s > 200)
        \<longrightarrow> writeToCookie key val w = (Inr False, w))
   \<and> (sanitizeValue val = Inr None \<longrightarrow> writeToCookie key val w = (Inr False, w))
   \<and> (length s > 3500 \<longrightarrow> sanitizeValue (JStr s) = Inr None)
   \<and> (fst (writeToCookie key val w) = Inr False \<longrightarrow>
        snd (writeToCookie key val w) = w
        \<and> (readFromCookie key w = Inr None \<longrightarrow>
             readFromCookie key (snd (writeToCookie key val w)) = Inr None))"
proof -
  have k: "writeToCookie key val w = (Inr False, w)"
    if "\<forall>s. key = JStr s \<longrightarrow> s = [] \<or> length s > 200"
  proof -
    have "sanitizeKey key = None" using that by (simp add: sanitizeKey_None_iff)
    then show ?thesis by (simp add: writeToCookie_def writeToCookie_try_def)
  qed
  have v: "writeToCookie key val w = (Inr False, w)" if "sanitizeValue val = Inr None"
    using that
    by (auto simp: writeToCookie_def writeToCookie_try_def split: option.splits sum.splits)
  have l: "sanitizeValue (JStr s) = Inr None" if "length s > 3500"
    using that by simp
  show ?thesis
    using writeToCookie_never_throws [of key val w] k v l
      writeToCookie_False_unchanged [of key val w]
    by auto
qed

theorem writeToCookie_failure_witness:
  "writeToCookie (JStr (js ''large'')) (JStr (replicate 5000 0x78)) example_page
      = (Inr False, example_page)
   \<and> readFromCookie (JStr (js ''large'')) example_page = Inr None
   \<and> readFromCookie (JStr (js ''large''))
        (snd (writeToCookie (JStr (js ''large'')) (JStr (replicate 5000 0x78)) example_page))
      = Inr None
   \<and> writeToCookie (JNum 3) (JStr (js ''v'')) example_page = (Inr False, example_page)
   \<and> writeToCookie (JStr (replicate 201 0x78)) (JStr (js ''v'')) example_page
      = (Inr False, example_page)"
proof -
  have r: "readFromCookie (JStr (js ''large'')) example_page = Inr None"
    by (simp add: readFromCookie_def readFromCookie_try_def example_page_def CONFIG_default_def
        document_cookie_def js_def)
  show ?thesis
    using r writeToCookie_failure [of "JStr (js ''large'')" "JStr (replicate 5000 0x78)" example_page
        "replicate 5000 0x78"]
      writeToCookie_failure [of "JNum 3" "JStr (js ''v'')" example_page "[]"]
      writeToCookie_failure [of "JStr (replicate 201 0x78)" "JStr (js ''v'')" example_page "[]"]
    by (simp add: js_def)
qed

section \<open>Replay pass\<close>

lemma sync_entry_cases:
  assumes "sync_entry a (k, v) (c, s, sk) w = (r, w')"
  obtains
    (throw) e where "shouldSync (JStr k) w = (Inl e, w')" "r = Inl e"
  | (reject) "shouldSync (JStr k) w = (Inr False, w')" "r = Inr (c, s, sk)"
  | (written) w0 where "shouldSync (JStr k) w = (Inr True, w0)" "write_decision w0 a k v"
      "call_setItem (originalSetItem w0) a (JStr k) (JStr v) w0 = (Inr (), w')"
      "r = Inr (c + 1, s @ [SyncedKey k (getStorageName a) (getItem a k w0 \<noteq> None)], sk)"
  | (failed) w0 e where "shouldSync (JStr k) w = (Inr True, w0)" "write_decision w0 a k v"
      "call_setItem (originalSetItem w0) a (JStr k) (JStr v) w0 = (Inl e, w')"
      "r = Inr (c, s, sk)"
  | (skipped) sk' where "shouldSync (JStr k) w = (Inr True, w')" "\<not> write_decision w' a k v"
      "r = Inr (c, s, sk')"
proof -
  obtain r0 w0 where s0: "shouldSync (JStr k) w = (r0, w0)" by (cases "shouldSync (JStr k) w")
  show thesis
  proof (cases r0)
    case (Inl e)
    then have "r = Inl e" "w' = w0" using assms s0 by (simp_all add: sync_entry_def)
    then show thesis using throw s0 Inl by simp
  next
    case (Inr b)
    show thesis
    proof (cases b)
      case False
      then have "r = Inr (c, s, sk)" "w' = w0" using assms s0 Inr by (simp_all add: sync_entry_def)
      then show thesis using reject s0 Inr False by simp
    next
      case True
      have s1: "shouldSync (JStr k) w = (Inr True, w0)" using s0 Inr True by simp
      show thesis
      proof (cases "write_decision w0 a k v")
        case dec: True
        then have d: "(truthy (overwriteExisting (CONFIG w0)) \<or> getItem a k w0 = None) \<and> v \<noteq> []"
          by (simp add: write_decision_def)
        obtain r1 w1 where c1: "call_setItem (originalSetItem w0) a (JStr k) (JStr v) w0 = (r1, w1)"
          by (cases "call_setItem (originalSetItem w0) a (JStr k) (JStr v) w0")
        show thesis
        proof (cases r1)
          case (Inl e)
          then have "r = Inr (c, s, sk)" "w' = w1"
            using assms s1 d c1 by (simp_all add: sync_entry_def Let_def)
          then show thesis using failed [OF s1 dec] c1 Inl by simp
        next
          case (Inr u)
          then have "r = Inr (c + 1, s @ [SyncedKey k (getStorageName a) (getItem a k w0 \<noteq> None)], sk)"
            "w' = w1"
            using assms s1 d c1 by (simp_all add: sync_entry_def Let_def)
          then show thesis using written [OF s1 dec] c1 Inr by simp
        qed
      next
        case False
        then have d: "\<not> ((truthy (overwriteExisting (CONFIG w0)) \<or> getItem a k w0 = None) \<and> v \<noteq> [])"
          by (simp add: write_decision_def)
        have "w' = w0" "\<exists>sk'. r = Inr (c, s, sk')"
          using assms s1 d by (auto simp: sync_entry_def Let_def split: if_splits)
        then show thesis using skipped s1 False by auto
      qed
    qed
  qed
qed

lemma sync_entry_count:
  assumes "sync_entry a e (c, s, k) w = (Inr (c', s', k'), w')"
  shows "c' + length s = c + length s'"
proof -
  obtain key v where e: "e = (key, v)" by (cases e)
  from assms [unfolded e] show ?thesis by (cases rule: sync_entry_cases) auto
qed

lemma sync_entries_count:
  "sync_entries a es (c, s, k) w = (Inr (c', s', k'), w') \<Longrightarrow> c' + length s = c + length s'"
proof (induction es arbitrary: c s k w)
  case Nil
  then show ?case by simp
next
  case (Cons e es)
  obtain r1 w1 where s1: "sync_entry a e (c, s, k) w = (r1, w1)"
    by (cases "sync_entry a e (c, s, k) w")
  show ?case
  proof (cases r1)
    case (Inl err)
    then show ?thesis using Cons.prems s1 by simp
  next
    case (Inr acc1)
    obtain c1 s1' k1 where acc1: "acc1 = (c1, s1', k1)" by (cases acc1)
    have "sync_entries a es (c1, s1', k1) w1 = (Inr (c', s', k'), w')"
      using Cons.prems s1 Inr acc1 by simp
    then have "c' + length s1' = c1 + length s'" by (rule Cons.IH)
    moreover have "c1 + length s = c + length s1'"
      using s1 Inr acc1 sync_entry_count by blast
    ultimately show ?thesis by arith
  qed
qed

lemma sync_storages_count:
  "sync_storages as es t s k w = (Inr (t', s', k'), w') \<Longrightarrow> t' + length s = t + length s'"
proof (induction as arbitrary: t s k w)
  case Nil
  then show ?case by simp
next
  case (Cons a as)
  obtain r1 w1 where s1: "sync_entries a es (0, s, k) w = (r1, w1)"
    by (cases "sync_entries a es (0, s, k) w")
  show ?case
  proof (cases r1)
    case (Inl err)
    then show ?thesis using Cons.prems s1 by simp
  next
    case (Inr acc1)
    obtain c1 s1' k1 where acc1: "acc1 = (c1, s1', k1)" by (cases acc1)
    have "sync_storages as es (t + c1) s1' k1 w1 = (Inr (t', s', k'), w')"
      using Cons.prems s1 Inr acc1 by simp
    then have "t' + length s1' = t + c1 + length s'" by (rule Cons.IH)
    moreover have "c1 + length s = 0 + length s1'"
      using s1 Inr acc1 sync_entries_count by blast
    ultimately show ?thesis by arith
  qed
qed

lemma call_setItem_trace:
  "call_setItem p a key val w = (r, w') \<Longrightarrow>
     \<exists>evs. trace w' = trace w @ evs \<and> \<not> list_ex is_SyncComplete evs"
proof -
  assume "call_setItem p a key val w = (r, w')"
  from call_setItem_effect [OF this]
  obtain evs where "trace w' = trace w @ NativeSetItem a key val # evs" "list_all is_CookieAssigned evs"
    by blast
  moreover have "\<not> list_ex is_SyncComplete evs" if "list_all is_CookieAssigned evs" for evs
    using that by (induction evs) (auto elim: is_CookieAssigned.elims)
  ultimately show ?thesis by (intro exI [of _ "NativeSetItem a key val # evs"]) simp
qed

lemma sync_entry_trace:
  assumes "sync_entry a e acc w = (r, w')"
  shows "\<exists>evs. trace w' = trace w @ evs \<and> \<not> list_ex is_SyncComplete evs"
proof -
  obtain key v where e: "e = (key, v)" by (cases e)
  obtain c s sk where acc: "acc = (c, s, sk)" by (cases acc)
  have same: "\<exists>evs. trace w0 = trace w @ evs \<and> \<not> list_ex is_SyncComplete evs"
    if "shouldSync (JStr key) w = (r0, w0)" for r0 w0
    using shouldSync_effect(2) [OF that] by simp
  have call: "\<exists>evs. trace w' = trace w @ evs \<and> \<not> list_ex is_SyncComplete evs"
    if "shouldSync (JStr key) w = (r0, w0)"
      and "call_setItem (originalSetItem w0) a (JStr key) (JStr v) w0 = (r1, w')" for r0 w0 r1
    using shouldSync_effect(2) [OF that(1)] call_setItem_trace [OF that(2)] by simp
  from assms [unfolded e acc] show ?thesis
    by (cases rule: sync_entry_cases) (blast intro: same call)+
qed

lemma sync_entries_trace:
  "sync_entries a es acc w = (r, w') \<Longrightarrow>
     \<exists>evs. trace w' = trace w @ evs \<and> \<not> list_ex is_SyncComplete evs"
proof (induction es arbitrary: acc w)
  case Nil
  then show ?case by simp
next
  case (Cons e es)
  obtain r1 w1 where s1: "sync_entry a e acc w = (r1, w1)" by (cases "sync_entry a e acc w")
  from sync_entry_trace [OF s1] obtain evs1 where
    e1: "trace w1 = trace w @ evs1" "\<not> list_ex is_SyncComplete evs1" by blast
  show ?case
  proof (cases r1)
    case (Inl err)
    then show ?thesis using Cons.prems s1 e1 by auto
  next
    case (Inr acc1)
    then have "sync_entries a es acc1 w1 = (r, w')" using Cons.prems s1 by simp
    from Cons.IH [OF this] obtain evs2 where
      "trace w' = trace w1 @ evs2" "\<not> list_ex is_SyncComplete evs2" by blast
    then show ?thesis using e1 by (intro exI [of _ "evs1 @ evs2"]) simp
  qed
qed

lemma sync_storages_trace:
  "sync_storages as es t s k w = (r, w') \<Longrightarrow>
     \<exists>evs. trace w' = trace w @ evs \<and> \<not> list_ex is_SyncComplete evs"
proof (induction as arbitrary: t s k w)
  case Nil
  then show ?case by simp
next
  case (Cons a as)
  obtain r1 w1 where s1: "sync_entries a es (0, s, k) w = (r1, w1)"
    by (cases "sync_entries a es (0, s, k) w")
  from sync_entries_trace [OF s1] obtain evs1 where
    e1: "trace w1 = trace w @ evs1" "\<not> list_ex is_SyncComplete evs1" by blast
  show ?case
  proof (cases r1)
    case (Inl err)
    then show ?thesis using Cons.prems s1 e1 by auto
  next
    case (Inr acc1)
    obtain c1 s1' k1 where acc1: "acc1 = (c1, s1', k1)" by (cases acc1)
    then have "sync_storages as es (t + c1) s1' k1 w1 = (r, w')" using Cons.prems s1 Inr by simp
    from Cons.IH [OF this] obtain evs2 where
      "trace w' = trace w1 @ evs2" "\<not> list_ex is_SyncComplete evs2" by blast
    then show ?thesis using e1 by (intro exI [of _ "evs1 @ evs2"]) simp
  qed
qed

lemma dispatch_trace:
  "trace (dispatchSyncCompleteEvent d w) = trace w @ [SyncComplete d]"
  by (simp add: dispatchSyncCompleteEvent_def Let_def)

lemma native_writes_simps [simp]:
  "native_writes [] = {}"
  "native_writes (xs @ ys) = native_writes xs \<union> native_writes ys"
  "native_writes (NativeSetItem a k v # xs) = insert (a, k, v) (native_writes xs)"
  by (auto simp: native_writes_def)

lemma native_writes_Cons:
  "native_writes (e # xs) = native_writes [e] \<union> native_writes xs"
  by (auto simp: native_writes_def)

lemma native_writes_cookie_events:
  "list_all is_CookieAssigned evs \<Longrightarrow> native_writes evs = {}"
proof (induction evs)
  case Nil
  then show ?case by simp
next
  case (Cons e evs)
  then have "is_CookieAssigned e" and r: "native_writes evs = {}" by simp_all
  then obtain s where "e = CookieAssigned s" by (cases e) simp_all
  then have "native_writes [e] = {}" by (simp add: native_writes_def)
  then show ?case using r native_writes_Cons [of e evs] by simp
qed

lemma storage_size_update:
  "storage_size (AList.update k v xs) \<le> storage_size xs + (length k + length v)"
  by (induction xs) (auto simp: storage_size_def)

lemma getStorageName_inj: "getStorageName a = getStorageName a' \<Longrightarrow> a = a'"
  by (cases a; cases a') (simp_all add: getStorageName_def js_def)

lemma native_setItem_string:
  assumes "native_setItem a (JStr k) (JStr v) w = (r, w')"
  shows "(r = Inr () \<and> items_of a w' = AList.update k v (items_of a w))
       \<or> (r = Inl QuotaExceededError \<and> items_of a w' = items_of a w)"
    and "storage_size (AList.update k v (items_of a w)) \<le> storage_quota w \<longrightarrow> r = Inr ()"
    and "a' \<noteq> a \<longrightarrow> items_of a' w' = items_of a' w"
  using assms unfolding native_setItem_def Let_def
  by (auto split: if_splits)

lemma call_setItem_string:
  assumes "syncKeys (CONFIG w) = JArr rules"
    and "call_setItem p a (JStr k) (JStr v) w = (r, w')"
  shows "(r = Inr () \<and> items_of a w' = AList.update k v (items_of a w))
       \<or> (r = Inl QuotaExceededError \<and> items_of a w' = items_of a w)"
    and "storage_size (AList.update k v (items_of a w)) \<le> storage_quota w \<longrightarrow> r = Inr ()"
    and "a' \<noteq> a \<longrightarrow> items_of a' w' = items_of a' w"
proof -
  have "((r = Inr () \<and> items_of a w' = AList.update k v (items_of a w))
       \<or> (r = Inl QuotaExceededError \<and> items_of a w' = items_of a w))
     \<and> (storage_size (AList.update k v (items_of a w)) \<le> storage_quota w \<longrightarrow> r = Inr ())
     \<and> (\<forall>a'. a' \<noteq> a \<longrightarrow> items_of a' w' = items_of a' w)"
    using assms(2)
  proof (induction p arbitrary: r w')
    case Native
    then show ?case using native_setItem_string [of a k v w r w'] by simp
  next
    case (Wrapper p)
    obtain r1 w1 where c1: "call_setItem p a (JStr k) (JStr v) w = (r1, w1)"
      by (cases "call_setItem p a (JStr k) (JStr v) w")
    note ih = Wrapper.IH [OF c1]
    have f1: "frame w1 = frame w" using call_setItem_effect [OF c1] by simp
    have k1: "syncKeys (CONFIG w1) = JArr rules" using assms(1) frame_CONFIG [OF f1] by simp
    from shouldSync_string_total [OF k1, of k] obtain b li where
      s2: "shouldSync (JStr k) w1 = (Inr b, w1\<lparr>lastIndex := li\<rparr>)" by blast
    let ?w2 = "w1\<lparr>lastIndex := li\<rparr>"
    obtain b3 w3 where c3: "writeToCookie (JStr k) (JStr v) ?w2 = (Inr b3, w3)"
      using writeToCookie_never_throws by blast
    have i3: "\<And>a. items_of a w3 = items_of a w1" using writeToCookie_effect [OF c3] by simp
    show ?case
    proof (cases r1)
      case (Inl e)
      then have "r = r1" "w' = w1" using Wrapper.prems c1 by simp_all
      then show ?thesis using ih by simp
    next
      case (Inr u)
      then have r1: "r1 = Inr ()" by simp
      have "r = Inr ()" "w' = w1 \<or> w' = ?w2 \<or> w' = w3"
        using Wrapper.prems c1 r1 s2 c3 by (auto split: if_splits)
      then have "r = r1" "\<And>a. items_of a w' = items_of a w1" using r1 i3 by auto
      then show ?thesis using ih by simp
    qed
  qed
  then show "(r = Inr () \<and> items_of a w' = AList.update k v (items_of a w))
       \<or> (r = Inl QuotaExceededError \<and> items_of a w' = items_of a w)"
    and "storage_size (AList.update k v (items_of a w)) \<le> storage_quota w \<longrightarrow> r = Inr ()"
    and "a' \<noteq> a \<longrightarrow> items_of a' w' = items_of a' w"
    by simp_all
qed

lemma write_decision_cong:
  "CONFIG w1 = CONFIG w \<Longrightarrow> getItem a k w1 = getItem a k w \<Longrightarrow>
     write_decision w1 a k v = write_decision w a k v"
  by (simp add: write_decision_def)

lemma getItem_update:
  "items_of a w' = AList.update k v (items_of a w) \<Longrightarrow>
     getItem a k' w' = (if k' = k then Some v else getItem a k' w)"
  by (simp add: getItem_def update_conv')

lemma getItem_same: "items_of a w' = items_of a w \<Longrightarrow> getItem a k w' = getItem a k w"
  by (simp add: getItem_def)

lemma sync_entry_effect:
  assumes "syncKeys (CONFIG w) = JArr rules"
  shows "\<exists>c' new sk' w' evs. sync_entry a (k, v) (c, s, sk) w = (Inr (c', s @ new, sk'), w')
     \<and> frame w' = frame w \<and> trace w' = trace w @ evs
     \<and> native_writes evs \<subseteq> {(a, JStr k, JStr v)}
     \<and> (\<forall>a'. a' \<noteq> a \<longrightarrow> items_of a' w' = items_of a' w)
     \<and> (\<forall>k'. k' \<noteq> k \<longrightarrow> getItem a k' w' = getItem a k' w)
     \<and> set new \<subseteq> {SyncedKey k (getStorageName a) (getItem a k w \<noteq> None)}
     \<and> storage_size (items_of a w') \<le> storage_size (items_of a w) + (length k + length v)
     \<and> (if new = [] then getItem a k w' = getItem a k w
         else write_decision w a k v \<and> getItem a k w' = Some v)
     \<and> (list_all stateless_rule rules \<longrightarrow>
          ((a, JStr k, JStr v) \<in> native_writes evs \<longleftrightarrow> key_matches rules k \<and> write_decision w a k v)
          \<and> (new \<noteq> [] \<longrightarrow> key_matches rules k)
          \<and> (key_matches rules k \<and> write_decision w a k v
              \<and> storage_size (items_of a w) + (length k + length v) \<le> storage_quota w
             \<longrightarrow> new \<noteq> []))"
proof -
  let ?P = "\<lambda>c' new sk' w' evs. sync_entry a (k, v) (c, s, sk) w = (Inr (c', s @ new, sk'), w')
     \<and> frame w' = frame w \<and> trace w' = trace w @ evs
     \<and> native_writes evs \<subseteq> {(a, JStr k, JStr v)}
     \<and> (\<forall>a'. a' \<noteq> a \<longrightarrow> items_of a' w' = items_of a' w)
     \<and> (\<forall>k'. k' \<noteq> k \<longrightarrow> getItem a k' w' = getItem a k' w)
     \<and> set new \<subseteq> {SyncedKey k (getStorageName a) (getItem a k w \<noteq> None)}
     \<and> storage_size (items_of a w') \<le> storage_size (items_of a w) + (length k + length v)
     \<and> (if new = [] then getItem a k w' = getItem a k w
         else write_decision w a k v \<and> getItem a k w' = Some v)
     \<and> (list_all stateless_rule rules \<longrightarrow>
          ((a, JStr k, JStr v) \<in> native_writes evs \<longleftrightarrow> key_matches rules k \<and> write_decision w a k v)
          \<and> (new \<noteq> [] \<longrightarrow> key_matches rules k)
          \<and> (key_matches rules k \<and> write_decision w a k v
              \<and> storage_size (items_of a w) + (length k + length v) \<le> storage_quota w
             \<longrightarrow> new \<noteq> []))"
  obtain r w' where se: "sync_entry a (k, v) (c, s, sk) w = (r, w')"
    by (cases "sync_entry a (k, v) (c, s, sk) w")
  have st: "shouldSync (JStr k) w = (Inr (key_matches rules k), w)" if "list_all stateless_rule rules"
    using shouldSync_stateless [OF assms that] .
  from se show ?thesis
  proof (cases rule: sync_entry_cases)
    case (throw e)
    then show ?thesis using shouldSync_string_total [OF assms, of k] by auto
  next
    case reject
    note e = shouldSync_effect [OF reject(1)]
    have m: "\<not> key_matches rules k" if "list_all stateless_rule rules"
      using st [OF that] reject(1) by simp
    have c: "?P c [] sk w' []"
      using se reject(2) e(1,2,4,5) m by simp
    show ?thesis by (rule exI, rule exI, rule exI, rule exI, rule exI, rule c)
  next
    case (skipped sk')
    note e = shouldSync_effect [OF skipped(1)]
    have cfg: "CONFIG w' = CONFIG w" using e(1) by (rule frame_CONFIG)
    have d: "\<not> write_decision w a k v"
      using skipped(2) write_decision_cong [OF cfg e(5)] by simp
    have c: "?P c [] sk' w' []"
      using se skipped(3) e(1,2,4,5) d by simp
    show ?thesis by (rule exI, rule exI, rule exI, rule exI, rule exI, rule c)
  next
    case (failed w0 e)
    note e0 = shouldSync_effect [OF failed(1)]
    have cfg: "CONFIG w0 = CONFIG w" using e0(1) by (rule frame_CONFIG)
    have q0: "storage_quota w0 = storage_quota w" using e0(1) by (rule frame_storage_quota)
    have k0: "syncKeys (CONFIG w0) = JArr rules" using assms cfg by simp
    have d: "write_decision w a k v"
      using failed(2) write_decision_cong [OF cfg e0(5)] by simp
    from call_setItem_effect [OF failed(3)] obtain evs where
      f: "frame w' = frame w0"
      and t: "trace w' = trace w0 @ NativeSetItem a (JStr k) (JStr v) # evs"
        "list_all is_CookieAssigned evs"
      by blast
    note cs = call_setItem_string [OF k0 failed(3)]
    have i: "items_of a w' = items_of a w0" using cs(1) by auto
    have io: "\<forall>a'. a' \<noteq> a \<longrightarrow> items_of a' w' = items_of a' w"
      using cs(3) e0(4) by simp
    have ia: "items_of a w' = items_of a w" using i e0(4) by simp
    have big: "\<not> storage_size (AList.update k v (items_of a w0)) \<le> storage_quota w0"
      using cs(2) by auto
    have room: "\<not> storage_size (items_of a w) + (length k + length v) \<le> storage_quota w"
      using big storage_size_update [of k v "items_of a w0"] e0(4) [of a] q0 by simp
    have n: "native_writes (NativeSetItem a (JStr k) (JStr v) # evs) = {(a, JStr k, JStr v)}"
      using t(2) by (simp add: native_writes_cookie_events)
    have m: "key_matches rules k" if "list_all stateless_rule rules"
      using st [OF that] failed(1) by simp
    have c: "?P c [] sk w' (NativeSetItem a (JStr k) (JStr v) # evs)"
      unfolding n using se failed(4) f e0(1,2) t(1) io ia d room m
      by (simp add: getItem_same [OF ia])
    show ?thesis by (rule exI, rule exI, rule exI, rule exI, rule exI, rule c)
  next
    case (written w0)
    note e0 = shouldSync_effect [OF written(1)]
    have cfg: "CONFIG w0 = CONFIG w" using e0(1) by (rule frame_CONFIG)
    have k0: "syncKeys (CONFIG w0) = JArr rules" using assms cfg by simp
    have d: "write_decision w a k v"
      using written(2) write_decision_cong [OF cfg e0(5)] by simp
    from call_setItem_effect [OF written(3)] obtain evs where
      f: "frame w' = frame w0"
      and t: "trace w' = trace w0 @ NativeSetItem a (JStr k) (JStr v) # evs"
        "list_all is_CookieAssigned evs"
      by blast
    note cs = call_setItem_string [OF k0 written(3)]
    have i: "items_of a w' = AList.update k v (items_of a w)" using cs(1) e0(4) by auto
    have io: "\<forall>a'. a' \<noteq> a \<longrightarrow> items_of a' w' = items_of a' w"
      using cs(3) e0(4) by simp
    have n: "native_writes (NativeSetItem a (JStr k) (JStr v) # evs) = {(a, JStr k, JStr v)}"
      using t(2) by (simp add: native_writes_cookie_events)
    have m: "key_matches rules k" if "list_all stateless_rule rules"
      using st [OF that] written(1) by simp
    have sz: "storage_size (items_of a w') \<le> storage_size (items_of a w) + (length k + length v)"
      unfolding i by (rule storage_size_update)
    have c: "?P (c + 1) [SyncedKey k (getStorageName a) (getItem a k w \<noteq> None)] sk w'
        (NativeSetItem a (JStr k) (JStr v) # evs)"
      unfolding n using se written(4) f e0(1,2,5) t(1) io d m sz
      by (simp add: getItem_update [OF i])
    show ?thesis by (rule exI, rule exI, rule exI, rule exI, rule exI, rule c)
  qed
qed

lemma listed_simps [simp]:
  "listed [] a k = False"
  "listed (xs @ ys) a k = (listed xs a k \<or> listed ys a k)"
  "listed [SyncedKey k' n ov] a k = (k' = k \<and> n = getStorageName a)"
  by (auto simp: listed_def)

lemma storage_size_Cons:
  "storage_size ((k, v) # es) = (length k + length v) + storage_size es"
  by (simp add: storage_size_def)

lemma sync_entries_effect:
  assumes "syncKeys (CONFIG w) = JArr rules" and "distinct (map fst es)"
  shows "\<exists>c' new sk' w' evs. sync_entries a es (c, s, sk) w = (Inr (c', s @ new, sk'), w')
     \<and> frame w' = frame w \<and> trace w' = trace w @ evs
     \<and> (\<forall>x\<in>native_writes evs. \<exists>k v. (k, v) \<in> set es \<and> x = (a, JStr k, JStr v))
     \<and> (\<forall>a'. a' \<noteq> a \<longrightarrow> items_of a' w' = items_of a' w)
     \<and> (\<forall>k'. k' \<notin> fst ` set es \<longrightarrow> getItem a k' w' = getItem a k' w)
     \<and> (\<forall>x\<in>set new. \<exists>k ov. k \<in> fst ` set es \<and> x = SyncedKey k (getStorageName a) ov)
     \<and> storage_size (items_of a w') \<le> storage_size (items_of a w) + storage_size es
     \<and> (\<forall>(k, v)\<in>set es.
          if listed new a k then write_decision w a k v \<and> getItem a k w' = Some v
          else getItem a k w' = getItem a k w)
     \<and> (list_all stateless_rule rules \<longrightarrow> (\<forall>(k, v)\<in>set es.
          ((a, JStr k, JStr v) \<in> native_writes evs \<longleftrightarrow> key_matches rules k \<and> write_decision w a k v)
          \<and> (listed new a k \<longrightarrow> key_matches rules k)
          \<and> (key_matches rules k \<and> write_decision w a k v
              \<and> storage_size (items_of a w) + storage_size es \<le> storage_quota w
             \<longrightarrow> listed new a k)))"
  using assms
proof (induction es arbitrary: c s sk w)
  case Nil
  have c: "sync_entries a [] (c, s, sk) w = (Inr (c, s @ [], sk), w)
     \<and> frame w = frame w \<and> trace w = trace w @ []
     \<and> (\<forall>x\<in>native_writes []. \<exists>k v. (k, v) \<in> set [] \<and> x = (a, JStr k, JStr v))
     \<and> (\<forall>a'. a' \<noteq> a \<longrightarrow> items_of a' w = items_of a' w)
     \<and> (\<forall>k'. k' \<notin> fst ` set [] \<longrightarrow> getItem a k' w = getItem a k' w)
     \<and> (\<forall>x\<in>set []. \<exists>k ov. k \<in> fst ` set [] \<and> x = SyncedKey k (getStorageName a) ov)
     \<and> storage_size (items_of a w) \<le> storage_size (items_of a w) + storage_size []
     \<and> (\<forall>(k, v)\<in>set [].
          if listed [] a k then write_decision w a k v \<and> getItem a k w = Some v
          else getItem a k w = getItem a k w)
     \<and> (list_all stateless_rule rules \<longrightarrow> (\<forall>(k, v)\<in>set [].
          ((a, JStr k, JStr v) \<in> native_writes [] \<longleftrightarrow> key_matches rules k \<and> write_decision w a k v)
          \<and> (listed [] a k \<longrightarrow> key_matches rules k)
          \<and> (key_matches rules k \<and> write_decision w a k v
              \<and> storage_size (items_of a w) + storage_size [] \<le> storage_quota w
             \<longrightarrow> listed [] a k)))"
    by simp
  show ?case by (rule exI, rule exI, rule exI, rule exI, rule exI, rule c)
next
  case (Cons e es)
  obtain k0 v0 where e: "e = (k0, v0)" by (cases e)
  have k0: "k0 \<notin> fst ` set es" and d: "distinct (map fst es)" using Cons.prems e by auto
  from sync_entry_effect [OF Cons.prems(1), of a k0 v0 c s sk] obtain c1 new1 sk1 w1 evs1 where
    s1: "sync_entry a (k0, v0) (c, s, sk) w = (Inr (c1, s @ new1, sk1), w1)"
    and f1: "frame w1 = frame w"
    and t1: "trace w1 = trace w @ evs1"
    and n1: "native_writes evs1 \<subseteq> {(a, JStr k0, JStr v0)}"
    and o1: "\<forall>a'. a' \<noteq> a \<longrightarrow> items_of a' w1 = items_of a' w"
    and g1: "\<forall>k'. k' \<noteq> k0 \<longrightarrow> getItem a k' w1 = getItem a k' w"
    and l1: "set new1 \<subseteq> {SyncedKey k0 (getStorageName a) (getItem a k0 w \<noteq> None)}"
    and z1: "storage_size (items_of a w1) \<le> storage_size (items_of a w) + (length k0 + length v0)"
    and p1: "if new1 = [] then getItem a k0 w1 = getItem a k0 w
         else write_decision w a k0 v0 \<and> getItem a k0 w1 = Some v0"
    and q1: "list_all stateless_rule rules \<longrightarrow>
          ((a, JStr k0, JStr v0) \<in> native_writes evs1 \<longleftrightarrow> key_matches rules k0 \<and> write_decision w a k0 v0)
          \<and> (new1 \<noteq> [] \<longrightarrow> key_matches rules k0)
          \<and> (key_matches rules k0 \<and> write_decision w a k0 v0
              \<and> storage_size (items_of a w) + (length k0 + length v0) \<le> storage_quota w
             \<longrightarrow> new1 \<noteq> [])"
    by (elim exE conjE)
  have cfg1: "CONFIG w1 = CONFIG w" using f1 by (rule frame_CONFIG)
  have quota1: "storage_quota w1 = storage_quota w" using f1 by (rule frame_storage_quota)
  have r1: "syncKeys (CONFIG w1) = JArr rules" using Cons.prems(1) cfg1 by simp
  from Cons.IH [OF r1 d, of c1 "s @ new1" sk1] obtain c2 new2 sk2 w2 evs2 where
    s2: "sync_entries a es (c1, s @ new1, sk1) w1 = (Inr (c2, (s @ new1) @ new2, sk2), w2)"
    and f2: "frame w2 = frame w1"
    and t2: "trace w2 = trace w1 @ evs2"
    and n2: "\<forall>x\<in>native_writes evs2. \<exists>k v. (k, v) \<in> set es \<and> x = (a, JStr k, JStr v)"
    and o2: "\<forall>a'. a' \<noteq> a \<longrightarrow> items_of a' w2 = items_of a' w1"
    and g2: "\<forall>k'. k' \<notin> fst ` set es \<longrightarrow> getItem a k' w2 = getItem a k' w1"
    and l2: "\<forall>x\<in>set new2. \<exists>k ov. k \<in> fst ` set es \<and> x = SyncedKey k (getStorageName a) ov"
    and z2: "storage_size (items_of a w2) \<le> storage_size (items_of a w1) + storage_size es"
    and p2: "\<forall>(k, v)\<in>set es.
          if listed new2 a k then write_decision w1 a k v \<and> getItem a k w2 = Some v
          else getItem a k w2 = getItem a k w1"
    and q2: "list_all stateless_rule rules \<longrightarrow> (\<forall>(k, v)\<in>set es.
          ((a, JStr k, JStr v) \<in> native_writes evs2 \<longleftrightarrow> key_matches rules k \<and> write_decision w1 a k v)
          \<and> (listed new2 a k \<longrightarrow> key_matches rules k)
          \<and> (key_matches rules k \<and> write_decision w1 a k v
              \<and> storage_size (items_of a w1) + storage_size es \<le> storage_quota w1
             \<longrightarrow> listed new2 a k))"
    by (elim exE conjE)
  let ?new = "new1 @ new2" and ?evs = "evs1 @ evs2"
  have A: "sync_entries a (e # es) (c, s, sk) w = (Inr (c2, s @ ?new, sk2), w2)"
    using s1 s2 e by simp
  have B: "frame w2 = frame w" using f1 f2 by simp
  have C: "trace w2 = trace w @ ?evs" using t1 t2 by simp
  have D: "\<forall>x\<in>native_writes ?evs. \<exists>k v. (k, v) \<in> set (e # es) \<and> x = (a, JStr k, JStr v)"
    using n1 n2 e by auto
  have E: "\<forall>a'. a' \<noteq> a \<longrightarrow> items_of a' w2 = items_of a' w" using o1 o2 by simp
  have F: "\<forall>k'. k' \<notin> fst ` set (e # es) \<longrightarrow> getItem a k' w2 = getItem a k' w"
    using g1 g2 e by simp
  have G: "\<forall>x\<in>set ?new. \<exists>k ov. k \<in> fst ` set (e # es) \<and> x = SyncedKey k (getStorageName a) ov"
  proof
    fix x
    assume "x \<in> set ?new"
    then consider "x \<in> set new1" | "x \<in> set new2" by auto
    then show "\<exists>k ov. k \<in> fst ` set (e # es) \<and> x = SyncedKey k (getStorageName a) ov"
    proof cases
      case 1
      then have "k0 \<in> fst ` set (e # es) \<and> x = SyncedKey k0 (getStorageName a) (getItem a k0 w \<noteq> None)"
        using l1 e by auto
      then show ?thesis by blast
    next
      case 2
      then obtain k ov where "k \<in> fst ` set es" "x = SyncedKey k (getStorageName a) ov"
        using l2 by blast
      then have "k \<in> fst ` set (e # es) \<and> x = SyncedKey k (getStorageName a) ov" by simp
      then show ?thesis by blast
    qed
  qed
  have H: "storage_size (items_of a w2) \<le> storage_size (items_of a w) + storage_size (e # es)"
    using z1 z2 unfolding e storage_size_Cons by arith
  have head_listed: "listed ?new a k0 \<longleftrightarrow> new1 \<noteq> []"
  proof -
    have "\<not> listed new2 a k0" using l2 k0 by (auto simp: listed_def)
    moreover have "listed new1 a k0 \<longleftrightarrow> new1 \<noteq> []"
      using l1 by (cases new1) (auto simp: listed_def)
    ultimately show ?thesis by simp
  qed
  have head_item: "getItem a k0 w2 = getItem a k0 w1" using g2 k0 by simp
  have head_event: "(a, JStr k0, JStr v0) \<in> native_writes ?evs
      \<longleftrightarrow> (a, JStr k0, JStr v0) \<in> native_writes evs1"
  proof -
    have "(a, JStr k0, JStr v0) \<notin> native_writes evs2"
    proof
      assume "(a, JStr k0, JStr v0) \<in> native_writes evs2"
      then obtain k v where "(k, v) \<in> set es" "(a, JStr k0, JStr v0) = (a, JStr k, JStr v)"
        using n2 by blast
      then have "(k0, v) \<in> set es" by simp
      then have "k0 \<in> fst ` set es" by (rule image_eqI [rotated]) simp
      then show False using k0 by simp
    qed
    then show ?thesis by simp
  qed
  have tail: "k \<noteq> k0 \<and> (listed ?new a k \<longleftrightarrow> listed new2 a k)
      \<and> getItem a k w1 = getItem a k w
      \<and> write_decision w1 a k v = write_decision w a k v
      \<and> ((a, JStr k, JStr v) \<in> native_writes ?evs \<longleftrightarrow> (a, JStr k, JStr v) \<in> native_writes evs2)"
    if "(k, v) \<in> set es" for k v
  proof -
    have ne: "k \<noteq> k0" using that k0 by (auto simp: image_iff)
    have "\<not> listed new1 a k" using l1 ne by (auto simp: listed_def)
    moreover have gi: "getItem a k w1 = getItem a k w" using g1 ne by simp
    moreover have "write_decision w1 a k v = write_decision w a k v"
      using cfg1 gi by (rule write_decision_cong)
    moreover have "(a, JStr k, JStr v) \<notin> native_writes evs1" using n1 ne by auto
    ultimately show ?thesis using ne by simp
  qed
  have I: "\<forall>(k, v)\<in>set (e # es).
          if listed ?new a k then write_decision w a k v \<and> getItem a k w2 = Some v
          else getItem a k w2 = getItem a k w"
  proof -
    have "if listed ?new a k0 then write_decision w a k0 v0 \<and> getItem a k0 w2 = Some v0
          else getItem a k0 w2 = getItem a k0 w"
      unfolding head_listed head_item using p1 by (simp split: if_splits)
    moreover have "if listed ?new a k then write_decision w a k v \<and> getItem a k w2 = Some v
          else getItem a k w2 = getItem a k w" if "(k, v) \<in> set es" for k v
      using tail [OF that] p2 that by (auto split: if_splits)
    ultimately show ?thesis unfolding e by auto
  qed
  have J: "\<forall>(k, v)\<in>set (e # es).
          ((a, JStr k, JStr v) \<in> native_writes ?evs \<longleftrightarrow> key_matches rules k \<and> write_decision w a k v)
          \<and> (listed ?new a k \<longrightarrow> key_matches rules k)
          \<and> (key_matches rules k \<and> write_decision w a k v
              \<and> storage_size (items_of a w) + storage_size (e # es) \<le> storage_quota w
             \<longrightarrow> listed ?new a k)"
    if sl: "list_all stateless_rule rules"
  proof -
    have room0: "storage_size (items_of a w) + (length k0 + length v0) \<le> storage_quota w"
      and room1: "storage_size (items_of a w1) + storage_size es \<le> storage_quota w1"
      if "storage_size (items_of a w) + storage_size (e # es) \<le> storage_quota w"
      using that z1 quota1 unfolding e storage_size_Cons by arith+
    have h: "((a, JStr k0, JStr v0) \<in> native_writes ?evs \<longleftrightarrow> key_matches rules k0 \<and> write_decision w a k0 v0)
          \<and> (listed ?new a k0 \<longrightarrow> key_matches rules k0)
          \<and> (key_matches rules k0 \<and> write_decision w a k0 v0
              \<and> storage_size (items_of a w) + storage_size (e # es) \<le> storage_quota w
             \<longrightarrow> listed ?new a k0)"
      unfolding head_listed head_event using q1 sl room0 by blast
    have t: "((a, JStr k, JStr v) \<in> native_writes ?evs \<longleftrightarrow> key_matches rules k \<and> write_decision w a k v)
          \<and> (listed ?new a k \<longrightarrow> key_matches rules k)
          \<and> (key_matches rules k \<and> write_decision w a k v
              \<and> storage_size (items_of a w) + storage_size (e # es) \<le> storage_quota w
             \<longrightarrow> listed ?new a k)" if "(k, v) \<in> set es" for k v
    proof -
      note tl = tail [OF that]
      have q: "((a, JStr k, JStr v) \<in> native_writes evs2 \<longleftrightarrow> key_matches rules k \<and> write_decision w1 a k v)
          \<and> (listed new2 a k \<longrightarrow> key_matches rules k)
          \<and> (key_matches rules k \<and> write_decision w1 a k v
              \<and> storage_size (items_of a w1) + storage_size es \<le> storage_quota w1
             \<longrightarrow> listed new2 a k)"
        using q2 sl that by blast
      show ?thesis using q tl room1 by blast
    qed
    show ?thesis
    proof (rule ballI)
      fix x
      assume x: "x \<in> set (e # es)"
      obtain k v where kv: "x = (k, v)" by (cases x)
      from x e kv consider "k = k0" "v = v0" | "(k, v) \<in> set es" by auto
      then show "case x of (k, v) \<Rightarrow>
          ((a, JStr k, JStr v) \<in> native_writes ?evs \<longleftrightarrow> key_matches rules k \<and> write_decision w a k v)
          \<and> (listed ?new a k \<longrightarrow> key_matches rules k)
          \<and> (key_matches rules k \<and> write_decision w a k v
              \<and> storage_size (items_of a w) + storage_size (e # es) \<le> storage_quota w
             \<longrightarrow> listed ?new a k)"
      proof cases
        case 1
        show ?thesis unfolding kv prod.case 1 by (rule h)
      next
        case 2
        show ?thesis unfolding kv prod.case by (rule t [OF 2])
      qed
    qed
  qed
  have c: "sync_entries a (e # es) (c, s, sk) w = (Inr (c2, s @ ?new, sk2), w2)
     \<and> frame w2 = frame w \<and> trace w2 = trace w @ ?evs
     \<and> (\<forall>x\<in>native_writes ?evs. \<exists>k v. (k, v) \<in> set (e # es) \<and> x = (a, JStr k, JStr v))
     \<and> (\<forall>a'. a' \<noteq> a \<longrightarrow> items_of a' w2 = items_of a' w)
     \<and> (\<forall>k'. k' \<notin> fst ` set (e # es) \<longrightarrow> getItem a k' w2 = getItem a k' w)
     \<and> (\<forall>x\<in>set ?new. \<exists>k ov. k \<in> fst ` set (e # es) \<and> x = SyncedKey k (getStorageName a) ov)
     \<and> storage_size (items_of a w2) \<le> storage_size (items_of a w) + storage_size (e # es)
     \<and> (\<forall>(k, v)\<in>set (e # es).
          if listed ?new a k then write_decision w a k v \<and> getItem a k w2 = Some v
          else getItem a k w2 = getItem a k w)
     \<and> (list_all stateless_rule rules \<longrightarrow> (\<forall>(k, v)\<in>set (e # es).
          ((a, JStr k, JStr v) \<in> native_writes ?evs \<longleftrightarrow> key_matches rules k \<and> write_decision w a k v)
          \<and> (listed ?new a k \<longrightarrow> key_matches rules k)
          \<and> (key_matches rules k \<and> write_decision w a k v
              \<and> storage_size (items_of a w) + storage_size (e # es) \<le> storage_quota w
             \<longrightarrow> listed ?new a k)))"
    using A B C D E F G H I J by (intro conjI impI)
  show ?case by (rule exI, rule exI, rule exI, rule exI, rule exI, rule c)
qed

lemma sync_storages_effect:
  assumes "syncKeys (CONFIG w) = JArr rules" and "distinct (map fst es)" and "distinct as"
  shows "\<exists>t' new sk' w' evs. sync_storages as es t s sk w = (Inr (t', s @ new, sk'), w')
     \<and> frame w' = frame w \<and> trace w' = trace w @ evs
     \<and> (\<forall>x\<in>native_writes evs. \<exists>a k v. a \<in> set as \<and> x = (a, JStr k, JStr v))
     \<and> (\<forall>a'. a' \<notin> set as \<longrightarrow> items_of a' w' = items_of a' w)
     \<and> (\<forall>x\<in>set new. \<exists>a k ov. a \<in> set as \<and> x = SyncedKey k (getStorageName a) ov)
     \<and> (\<forall>a\<in>set as. \<forall>(k, v)\<in>set es.
          if listed new a k then write_decision w a k v \<and> getItem a k w' = Some v
          else getItem a k w' = getItem a k w)
     \<and> (list_all stateless_rule rules \<longrightarrow> (\<forall>a\<in>set as. \<forall>(k, v)\<in>set es.
          ((a, JStr k, JStr v) \<in> native_writes evs \<longleftrightarrow> key_matches rules k \<and> write_decision w a k v)
          \<and> (listed new a k \<longrightarrow> key_matches rules k)
          \<and> (key_matches rules k \<and> write_decision w a k v
              \<and> storage_size (items_of a w) + storage_size es \<le> storage_quota w
             \<longrightarrow> listed new a k)))"
  using assms
proof (induction as arbitrary: t s sk w)
  case Nil
  have c: "sync_storages [] es t s sk w = (Inr (t, s @ [], sk), w)
     \<and> frame w = frame w \<and> trace w = trace w @ []
     \<and> (\<forall>x\<in>native_writes []. \<exists>a k v. a \<in> set [] \<and> x = (a, JStr k, JStr v))
     \<and> (\<forall>a'. a' \<notin> set [] \<longrightarrow> items_of a' w = items_of a' w)
     \<and> (\<forall>x\<in>set []. \<exists>a k ov. a \<in> set [] \<and> x = SyncedKey k (getStorageName a) ov)
     \<and> (\<forall>a\<in>set []. \<forall>(k, v)\<in>set es.
          if listed [] a k then write_decision w a k v \<and> getItem a k w = Some v
          else getItem a k w = getItem a k w)
     \<and> (list_all stateless_rule rules \<longrightarrow> (\<forall>a\<in>set []. \<forall>(k, v)\<in>set es.
          ((a, JStr k, JStr v) \<in> native_writes [] \<longleftrightarrow> key_matches rules k \<and> write_decision w a k v)
          \<and> (listed [] a k \<longrightarrow> key_matches rules k)
          \<and> (key_matches rules k \<and> write_decision w a k v
              \<and> storage_size (items_of a w) + storage_size es \<le> storage_quota w
             \<longrightarrow> listed [] a k)))"
    by simp
  show ?case by (rule exI, rule exI, rule exI, rule exI, rule exI, rule c)
next
  case (Cons a0 as)
  have a0: "a0 \<notin> set as" and d: "distinct as" using Cons.prems by auto
  from sync_entries_effect [OF Cons.prems(1,2), of a0 0 s sk] obtain c1 new1 sk1 w1 evs1 where
    s1: "sync_entries a0 es (0, s, sk) w = (Inr (c1, s @ new1, sk1), w1)"
    and f1: "frame w1 = frame w"
    and t1: "trace w1 = trace w @ evs1"
    and n1: "\<forall>x\<in>native_writes evs1. \<exists>k v. (k, v) \<in> set es \<and> x = (a0, JStr k, JStr v)"
    and o1: "\<forall>a'. a' \<noteq> a0 \<longrightarrow> items_of a' w1 = items_of a' w"
    and l1: "\<forall>x\<in>set new1. \<exists>k ov. k \<in> fst ` set es \<and> x = SyncedKey k (getStorageName a0) ov"
    and p1: "\<forall>(k, v)\<in>set es.
          if listed new1 a0 k then write_decision w a0 k v \<and> getItem a0 k w1 = Some v
          else getItem a0 k w1 = getItem a0 k w"
    and q1: "list_all stateless_rule rules \<longrightarrow> (\<forall>(k, v)\<in>set es.
          ((a0, JStr k, JStr v) \<in> native_writes evs1 \<longleftrightarrow> key_matches rules k \<and> write_decision w a0 k v)
          \<and> (listed new1 a0 k \<longrightarrow> key_matches rules k)
          \<and> (key_matches rules k \<and> write_decision w a0 k v
              \<and> storage_size (items_of a0 w) + storage_size es \<le> storage_quota w
             \<longrightarrow> listed new1 a0 k))"
    by (elim exE conjE)
  have cfg1: "CONFIG w1 = CONFIG w" using f1 by (rule frame_CONFIG)
  have quota1: "storage_quota w1 = storage_quota w" using f1 by (rule frame_storage_quota)
  have r1: "syncKeys (CONFIG w1) = JArr rules" using Cons.prems(1) cfg1 by simp
  from Cons.IH [OF r1 Cons.prems(2) d, of "t + c1" "s @ new1" sk1] obtain t2 new2 sk2 w2 evs2 where
    s2: "sync_storages as es (t + c1) (s @ new1) sk1 w1 = (Inr (t2, (s @ new1) @ new2, sk2), w2)"
    and f2: "frame w2 = frame w1"
    and t2: "trace w2 = trace w1 @ evs2"
    and n2: "\<forall>x\<in>native_writes evs2. \<exists>a k v. a \<in> set as \<and> x = (a, JStr k, JStr v)"
    and o2: "\<forall>a'. a' \<notin> set as \<longrightarrow> items_of a' w2 = items_of a' w1"
    and l2: "\<forall>x\<in>set new2. \<exists>a k ov. a \<in> set as \<and> x = SyncedKey k (getStorageName a) ov"
    and p2: "\<forall>a\<in>set as. \<forall>(k, v)\<in>set es.
          if listed new2 a k then write_decision w1 a k v \<and> getItem a k w2 = Some v
          else getItem a k w2 = getItem a k w1"
    and q2: "list_all stateless_rule rules \<longrightarrow> (\<forall>a\<in>set as. \<forall>(k, v)\<in>set es.
          ((a, JStr k, JStr v) \<in> native_writes evs2 \<longleftrightarrow> key_matches rules k \<and> write_decision w1 a k v)
          \<and> (listed new2 a k \<longrightarrow> key_matches rules k)
          \<and> (key_matches rules k \<and> write_decision w1 a k v
              \<and> storage_size (items_of a w1) + storage_size es \<le> storage_quota w1
             \<longrightarrow> listed new2 a k))"
    by (elim exE conjE)
  let ?new = "new1 @ new2" and ?evs = "evs1 @ evs2"
  have A: "sync_storages (a0 # as) es t s sk w = (Inr (t2, s @ ?new, sk2), w2)"
    using s1 s2 by simp
  have B: "frame w2 = frame w" using f1 f2 by simp
  have C: "trace w2 = trace w @ ?evs" using t1 t2 by simp
  have D: "\<forall>x\<in>native_writes ?evs. \<exists>a k v. a \<in> set (a0 # as) \<and> x = (a, JStr k, JStr v)"
  proof
    fix x
    assume "x \<in> native_writes ?evs"
    then consider "x \<in> native_writes evs1" | "x \<in> native_writes evs2" by auto
    then show "\<exists>a k v. a \<in> set (a0 # as) \<and> x = (a, JStr k, JStr v)"
    proof cases
      case 1
      then obtain k v where "x = (a0, JStr k, JStr v)" using n1 by blast
      then have "a0 \<in> set (a0 # as) \<and> x = (a0, JStr k, JStr v)" by simp
      then show ?thesis by blast
    next
      case 2
      then obtain a k v where "a \<in> set as" "x = (a, JStr k, JStr v)" using n2 by blast
      then have "a \<in> set (a0 # as) \<and> x = (a, JStr k, JStr v)" by simp
      then show ?thesis by blast
    qed
  qed
  have E: "\<forall>a'. a' \<notin> set (a0 # as) \<longrightarrow> items_of a' w2 = items_of a' w" using o1 o2 by simp
  have G: "\<forall>x\<in>set ?new. \<exists>a k ov. a \<in> set (a0 # as) \<and> x = SyncedKey k (getStorageName a) ov"
  proof
    fix x
    assume "x \<in> set ?new"
    then consider "x \<in> set new1" | "x \<in> set new2" by auto
    then show "\<exists>a k ov. a \<in> set (a0 # as) \<and> x = SyncedKey k (getStorageName a) ov"
    proof cases
      case 1
      then obtain k ov where "x = SyncedKey k (getStorageName a0) ov" using l1 by blast
      then have "a0 \<in> set (a0 # as) \<and> x = SyncedKey k (getStorageName a0) ov" by simp
      then show ?thesis by blast
    next
      case 2
      then obtain a k ov where "a \<in> set as" "x = SyncedKey k (getStorageName a) ov" using l2 by blast
      then have "a \<in> set (a0 # as) \<and> x = SyncedKey k (getStorageName a) ov" by simp
      then show ?thesis by blast
    qed
  qed
  have head: "(listed ?new a0 k \<longleftrightarrow> listed new1 a0 k)
      \<and> getItem a0 k w2 = getItem a0 k w1
      \<and> ((a0, JStr k, JStr v) \<in> native_writes ?evs \<longleftrightarrow> (a0, JStr k, JStr v) \<in> native_writes evs1)"
    for k v
  proof -
    have "\<not> listed new2 a0 k"
    proof
      assume "listed new2 a0 k"
      then obtain ov where "SyncedKey k (getStorageName a0) ov \<in> set new2" by (auto simp: listed_def)
      then obtain a where "a \<in> set as" "getStorageName a0 = getStorageName a" using l2 by fastforce
      then show False using a0 getStorageName_inj by blast
    qed
    moreover have "items_of a0 w2 = items_of a0 w1" using o2 a0 by simp
    then have "getItem a0 k w2 = getItem a0 k w1" by (rule getItem_same)
    moreover have "(a0, JStr k, JStr v) \<notin> native_writes evs2" using n2 a0 by auto
    ultimately show ?thesis by simp
  qed
  have tail: "(listed ?new a k \<longleftrightarrow> listed new2 a k)
      \<and> getItem a k w1 = getItem a k w
      \<and> write_decision w1 a k v = write_decision w a k v
      \<and> storage_size (items_of a w1) = storage_size (items_of a w)
      \<and> ((a, JStr k, JStr v) \<in> native_writes ?evs \<longleftrightarrow> (a, JStr k, JStr v) \<in> native_writes evs2)"
    if "a \<in> set as" for a k v
  proof -
    have ne: "a \<noteq> a0" using that a0 by auto
    have "\<not> listed new1 a k"
    proof
      assume "listed new1 a k"
      then obtain ov where "SyncedKey k (getStorageName a) ov \<in> set new1" by (auto simp: listed_def)
      then have "getStorageName a = getStorageName a0" using l1 by fastforce
      then show False using ne getStorageName_inj by blast
    qed
    moreover have i: "items_of a w1 = items_of a w" using o1 ne by simp
    moreover have gi: "getItem a k w1 = getItem a k w" using i by (rule getItem_same)
    moreover have "write_decision w1 a k v = write_decision w a k v"
      using cfg1 gi by (rule write_decision_cong)
    moreover have "(a, JStr k, JStr v) \<notin> native_writes evs1" using n1 ne by auto
    ultimately show ?thesis by simp
  qed
  have I: "\<forall>a\<in>set (a0 # as). \<forall>(k, v)\<in>set es.
          if listed ?new a k then write_decision w a k v \<and> getItem a k w2 = Some v
          else getItem a k w2 = getItem a k w"
  proof (intro ballI)
    fix a x
    assume a: "a \<in> set (a0 # as)" and x: "x \<in> set es"
    obtain k v where kv: "x = (k, v)" by (cases x)
    from a consider "a = a0" | "a \<in> set as" by auto
    then show "case x of (k, v) \<Rightarrow>
          if listed ?new a k then write_decision w a k v \<and> getItem a k w2 = Some v
          else getItem a k w2 = getItem a k w"
    proof cases
      case 1
      have "if listed new1 a0 k then write_decision w a0 k v \<and> getItem a0 k w1 = Some v
          else getItem a0 k w1 = getItem a0 k w"
        using p1 x kv by auto
      then show ?thesis unfolding kv prod.case 1 using head [of k v] by (simp split: if_splits)
    next
      case 2
      have "if listed new2 a k then write_decision w1 a k v \<and> getItem a k w2 = Some v
          else getItem a k w2 = getItem a k w1"
        using bspec [OF bspec [OF p2 2] x] unfolding kv prod.case .
      then show ?thesis unfolding kv prod.case using tail [OF 2, of k v] by (simp split: if_splits)
    qed
  qed
  have J: "\<forall>a\<in>set (a0 # as). \<forall>(k, v)\<in>set es.
          ((a, JStr k, JStr v) \<in> native_writes ?evs \<longleftrightarrow> key_matches rules k \<and> write_decision w a k v)
          \<and> (listed ?new a k \<longrightarrow> key_matches rules k)
          \<and> (key_matches rules k \<and> write_decision w a k v
              \<and> storage_size (items_of a w) + storage_size es \<le> storage_quota w
             \<longrightarrow> listed ?new a k)"
    if sl: "list_all stateless_rule rules"
  proof (intro ballI)
    fix a x
    assume a: "a \<in> set (a0 # as)" and x: "x \<in> set es"
    obtain k v where kv: "x = (k, v)" by (cases x)
    from a consider "a = a0" | "a \<in> set as" by auto
    then show "case x of (k, v) \<Rightarrow>
          ((a, JStr k, JStr v) \<in> native_writes ?evs \<longleftrightarrow> key_matches rules k \<and> write_decision w a k v)
          \<and> (listed ?new a k \<longrightarrow> key_matches rules k)
          \<and> (key_matches rules k \<and> write_decision w a k v
              \<and> storage_size (items_of a w) + storage_size es \<le> storage_quota w
             \<longrightarrow> listed ?new a k)"
    proof cases
      case 1
      have "((a0, JStr k, JStr v) \<in> native_writes evs1 \<longleftrightarrow> key_matches rules k \<and> write_decision w a0 k v)
          \<and> (listed new1 a0 k \<longrightarrow> key_matches rules k)
          \<and> (key_matches rules k \<and> write_decision w a0 k v
              \<and> storage_size (items_of a0 w) + storage_size es \<le> storage_quota w
             \<longrightarrow> listed new1 a0 k)"
        using q1 sl x kv by blast
      then show ?thesis unfolding kv prod.case 1 using head [of k v] by blast
    next
      case 2
      have "((a, JStr k, JStr v) \<in> native_writes evs2 \<longleftrightarrow> key_matches rules k \<and> write_decision w1 a k v)
          \<and> (listed new2 a k \<longrightarrow> key_matches rules k)
          \<and> (key_matches rules k \<and> write_decision w1 a k v
              \<and> storage_size (items_of a w1) + storage_size es \<le> storage_quota w1
             \<longrightarrow> listed new2 a k)"
        using q2 sl 2 x kv by blast
      then show ?thesis unfolding kv prod.case using tail [OF 2, of k v] quota1 by simp
    qed
  qed
  have c: "sync_storages (a0 # as) es t s sk w = (Inr (t2, s @ ?new, sk2), w2)
     \<and> frame w2 = frame w \<and> trace w2 = trace w @ ?evs
     \<and> (\<forall>x\<in>native_writes ?evs. \<exists>a k v. a \<in> set (a0 # as) \<and> x = (a, JStr k, JStr v))
     \<and> (\<forall>a'. a' \<notin> set (a0 # as) \<longrightarrow> items_of a' w2 = items_of a' w)
     \<and> (\<forall>x\<in>set ?new. \<exists>a k ov. a \<in> set (a0 # as) \<and> x = SyncedKey k (getStorageName a) ov)
     \<and> (\<forall>a\<in>set (a0 # as). \<forall>(k, v)\<in>set es.
          if listed ?new a k then write_decision w a k v \<and> getItem a k w2 = Some v
          else getItem a k w2 = getItem a k w)
     \<and> (list_all stateless_rule rules \<longrightarrow> (\<forall>a\<in>set (a0 # as). \<forall>(k, v)\<in>set es.
          ((a, JStr k, JStr v) \<in> native_writes ?evs \<longleftrightarrow> key_matches rules k \<and> write_decision w a k v)
          \<and> (listed ?new a k \<longrightarrow> key_matches rules k)
          \<and> (key_matches rules k \<and> write_decision w a k v
              \<and> storage_size (items_of a w) + storage_size es \<le> storage_quota w
             \<longrightarrow> listed ?new a k)))"
    using A B C D E G I J by (intro conjI impI)
  show ?case by (rule exI, rule exI, rule exI, rule exI, rule exI, rule c)
qed

lemma distinct_getStorageObjects: "distinct (getStorageObjects cfg)"
  by (simp add: getStorageObjects_def)

lemma insert_index_keys:
  "set (map fst (insert_index i k v obj)) = insert k (set (map fst obj))"
  by (induction obj) (auto split: option.splits)

lemma distinct_insert_index:
  "distinct (map fst obj) \<Longrightarrow> k \<notin> set (map fst obj) \<Longrightarrow>
     distinct (map fst (insert_index i k v obj))"
proof (induction obj)
  case Nil
  then show ?case by simp
next
  case (Cons p obj)
  then show ?case
    using insert_index_keys [of i k v obj] by (auto split: option.splits)
qed

lemma distinct_set_property:
  "distinct (map fst obj) \<Longrightarrow> distinct (map fst (set_property obj k v))"
  unfolding set_property_def
  by (auto simp: distinct_update distinct_insert_index split: option.splits)

lemma distinct_collect_sync_cookies:
  "distinct (map fst syncData) \<Longrightarrow> distinct (map fst (collect_sync_cookies cfg cs syncData))"
proof (induction cs arbitrary: syncData)
  case Nil
  then show ?case by simp
next
  case (Cons c cs)
  then show ?case
    by (auto simp: Let_def distinct_set_property split: option.splits sum.splits)
qed

lemma distinct_getAllSyncCookies: "distinct (map fst (getAllSyncCookies w))"
  unfolding getAllSyncCookies_def by (rule distinct_collect_sync_cookies) simp

lemmas string_defs = js_def is_space_def trim_def startsWith_def semicolon_def equals_def
  percent_def dot_def

lemma getAll_cookie_page:
  "getAllSyncCookies cookie_page = [(js ''theme'', js ''dark''), (js ''empty'', [])]"
  by (simp add: getAllSyncCookies_def cookie_page_def example_page_def CONFIG_default_def
      document_cookie_def string_defs name_startsWith_def set_property_def array_index_def
      is_digit_def Let_def)

lemmas world_defs = overwrite_page_def cookie_page_def example_page_def CONFIG_default_def

lemma getAll_overwrite_page:
  "getAllSyncCookies overwrite_page = [(js ''theme'', js ''dark''), (js ''empty'', [])]"
  by (simp add: getAllSyncCookies_def world_defs
      document_cookie_def string_defs name_startsWith_def set_property_def array_index_def
      is_digit_def Let_def)

lemma dispatch_items:
  "items_of a (dispatchSyncCompleteEvent d w) = items_of a w"
  "getItem a k (dispatchSyncCompleteEvent d w) = getItem a k w"
  by (cases a; simp add: dispatchSyncCompleteEvent_def Let_def getItem_def)+

lemma syncCookiesToStorage_effect:
  assumes "syncKeys (CONFIG w) = JArr rules"
  shows "\<exists>t new sk w1. sync_storages (getStorageObjects (CONFIG w)) (getAllSyncCookies w) 0 [] [] w
        = (Inr (t, new, sk), w1)
     \<and> frame w1 = frame w
     \<and> syncCookiesToStorage w
        = (Inr (), dispatchSyncCompleteEvent
             \<lparr> syncedCount = t, syncedKeys = new, skippedKeys = sk,
               totalCookies = length (Object_keys (getAllSyncCookies w)) \<rparr> w1)"
proof -
  from sync_storages_effect [where w = w and t = 0 and s = "[]" and sk = "[]",
      OF assms distinct_getAllSyncCookies [of w] distinct_getStorageObjects [of "CONFIG w"]]
  obtain t new sk w1 where
    s: "sync_storages (getStorageObjects (CONFIG w)) (getAllSyncCookies w) 0 [] [] w
        = (Inr (t, [] @ new, sk), w1)"
    and f: "frame w1 = frame w"
    by (elim exE conjE)
  have c: "sync_storages (getStorageObjects (CONFIG w)) (getAllSyncCookies w) 0 [] [] w
        = (Inr (t, new, sk), w1)
     \<and> frame w1 = frame w
     \<and> syncCookiesToStorage w
        = (Inr (), dispatchSyncCompleteEvent
             \<lparr> syncedCount = t, syncedKeys = new, skippedKeys = sk,
               totalCookies = length (Object_keys (getAllSyncCookies w)) \<rparr> w1)"
    using s f by (simp add: syncCookiesToStorage_def Let_def)
  show ?thesis by (rule exI, rule exI, rule exI, rule exI, rule c)
qed

lemma syncCookiesToStorage_total:
  assumes "syncKeys (CONFIG w) = JArr rules"
  shows "fst (syncCookiesToStorage w) = Inr ()"
  using syncCookiesToStorage_effect [OF assms] by auto

text \<open>
  Claim C10. Every report a replay pass emits has \<^verbatim>\<open>syncedCount\<close> equal to the length of
  \<^verbatim>\<open>syncedKeys\<close> and \<^verbatim>\<open>totalCookies\<close> equal to the number of entries of the snapshot of
  prefixed cookies taken at the start of the pass; the pass emits one report, as its last
  event.
\<close>

theorem sync_report_counts:
  assumes "syncCookiesToStorage w = (Inr u, w')"
  shows "\<exists>evs report. trace w' = trace w @ evs @ [SyncComplete report]
      \<and> \<not> list_ex is_SyncComplete evs
      \<and> syncedCount report = length (syncedKeys report)
      \<and> totalCookies report = length (getAllSyncCookies w)"
proof -
  let ?es = "getAllSyncCookies w"
  obtain r1 w1 where s1: "sync_storages (getStorageObjects (CONFIG w)) ?es 0 [] [] w = (r1, w1)"
    by (cases "sync_storages (getStorageObjects (CONFIG w)) ?es 0 [] [] w")
  from sync_storages_trace [OF s1] obtain evs where
    e1: "trace w1 = trace w @ evs" "\<not> list_ex is_SyncComplete evs" by blast
  show ?thesis
  proof (cases r1)
    case (Inl err)
    then show ?thesis using assms s1 by (simp add: syncCookiesToStorage_def Let_def)
  next
    case (Inr acc)
    obtain t s k where acc: "acc = (t, s, k)" by (cases acc)
    let ?report = "\<lparr> syncedCount = t, syncedKeys = s, skippedKeys = k,
                      totalCookies = length (Object_keys ?es) \<rparr>"
    have w': "w' = dispatchSyncCompleteEvent ?report w1"
      using assms s1 Inr acc by (simp add: syncCookiesToStorage_def Let_def)
    have "t + length ([]::syncedKey list) = 0 + length s"
      using s1 Inr acc sync_storages_count by blast
    then have "syncedCount ?report = length (syncedKeys ?report)" by simp
    moreover have "totalCookies ?report = length ?es" by (simp add: Object_keys_def)
    moreover have "trace w' = trace w @ evs @ [SyncComplete ?report]"
      using w' e1 by (simp add: dispatch_trace)
    ultimately show ?thesis using e1 by blast
  qed
qed

theorem sync_report_counts_witness:
  "fst (syncCookiesToStorage cookie_page) = Inr ()
   \<and> (\<exists>evs report. trace (snd (syncCookiesToStorage cookie_page))
          = trace cookie_page @ evs @ [SyncComplete report]
        \<and> \<not> list_ex is_SyncComplete evs
        \<and> syncedCount report = length (syncedKeys report)
        \<and> totalCookies report = length (getAllSyncCookies cookie_page))"
proof -
  have ok: "fst (syncCookiesToStorage cookie_page) = Inr ()"
    by (rule syncCookiesToStorage_total [of _ "[]"]) (simp add: world_defs)
  then have "syncCookiesToStorage cookie_page = (Inr (), snd (syncCookiesToStorage cookie_page))"
    by (cases "syncCookiesToStorage cookie_page") simp
  from sync_report_counts [OF this] ok show ?thesis by (rule conjI [rotated])
qed

lemma getAll_rules_page:
  "getAllSyncCookies rules_page = [(js ''theme'', js ''dark''), (js ''empty'', [])]"
  by (simp add: getAllSyncCookies_def rules_page_def world_defs
      document_cookie_def string_defs name_startsWith_def set_property_def array_index_def
      is_digit_def Let_def)

lemma getAll_full_page:
  "getAllSyncCookies full_page = [(js ''theme'', js ''dark''), (js ''empty'', [])]"
  by (simp add: getAllSyncCookies_def full_page_def world_defs
      document_cookie_def string_defs name_startsWith_def set_property_def array_index_def
      is_digit_def Let_def)

text \<open>
  Claim C2, as amended. In a replay pass whose rules have no global or sticky pattern, for
  every target storage area and every entry of the snapshot of prefixed cookies whose key
  the key matcher accepts: the original \<^verbatim>\<open>setItem\<close> is called for the entry on that area
  exactly when overwriting is on or the area held no value for the key at the start of the
  pass, and the cookie value is not empty. When the report lists the key as synced to the
  area, that condition held and after the pass the area holds the cookie value for the key;
  when it does not, the area holds for the key what it held before. When the area has
  room for the entries of the snapshot, so that \<^verbatim>\<open>setItem\<close> does not throw, the key is
  listed, and the value stored, exactly when the condition holds. An empty value is
  therefore never written.
\<close>

theorem sync_write_decision:
  assumes "syncKeys (CONFIG w) = JArr rules" and "list_all stateless_rule rules"
    and "a \<in> set (getStorageObjects (CONFIG w))"
    and "(k, v) \<in> set (getAllSyncCookies w)"
    and "key_matches rules k"
  shows "\<exists>w' evs report. syncCookiesToStorage w = (Inr (), w')
     \<and> trace w' = trace w @ evs @ [SyncComplete report]
     \<and> (NativeSetItem a (JStr k) (JStr v) \<in> set evs \<longleftrightarrow>
          (truthy (overwriteExisting (CONFIG w)) \<or> getItem a k w = None) \<and> v \<noteq> [])
     \<and> (if listed (syncedKeys report) a k
         then ((truthy (overwriteExisting (CONFIG w)) \<or> getItem a k w = None) \<and> v \<noteq> [])
              \<and> getItem a k w' = Some v
         else getItem a k w' = getItem a k w)
     \<and> (storage_size (items_of a w) + storage_size (getAllSyncCookies w) \<le> storage_quota w
         \<longrightarrow> (listed (syncedKeys report) a k \<longleftrightarrow>
                (truthy (overwriteExisting (CONFIG w)) \<or> getItem a k w = None) \<and> v \<noteq> []))"
proof -
  let ?es = "getAllSyncCookies w"
  let ?as = "getStorageObjects (CONFIG w)"
  from sync_storages_effect [where w = w and t = 0 and s = "[]" and sk = "[]",
      OF assms(1) distinct_getAllSyncCookies [of w] distinct_getStorageObjects [of "CONFIG w"]]
  obtain t new sk w1 evs where
    s1: "sync_storages ?as ?es 0 [] [] w = (Inr (t, [] @ new, sk), w1)"
    and t1: "trace w1 = trace w @ evs"
    and p: "\<forall>a\<in>set ?as. \<forall>(k, v)\<in>set ?es.
          if listed new a k then write_decision w a k v \<and> getItem a k w1 = Some v
          else getItem a k w1 = getItem a k w"
    and q: "list_all stateless_rule rules \<longrightarrow> (\<forall>a\<in>set ?as. \<forall>(k, v)\<in>set ?es.
          ((a, JStr k, JStr v) \<in> native_writes evs \<longleftrightarrow> key_matches rules k \<and> write_decision w a k v)
          \<and> (listed new a k \<longrightarrow> key_matches rules k)
          \<and> (key_matches rules k \<and> write_decision w a k v
              \<and> storage_size (items_of a w) + storage_size ?es \<le> storage_quota w
             \<longrightarrow> listed new a k))"
    by (elim exE conjE)
  let ?report = "\<lparr> syncedCount = t, syncedKeys = new, skippedKeys = sk,
                    totalCookies = length (Object_keys ?es) \<rparr>"
  let ?w' = "dispatchSyncCompleteEvent ?report w1"
  let ?d = "(truthy (overwriteExisting (CONFIG w)) \<or> getItem a k w = None) \<and> v \<noteq> []"
  have d: "write_decision w a k v \<longleftrightarrow> ?d" by (simp add: write_decision_def)
  have p': "if listed new a k then write_decision w a k v \<and> getItem a k w1 = Some v
          else getItem a k w1 = getItem a k w"
    using bspec [OF bspec [OF p assms(3)] assms(4)] unfolding prod.case .
  have q': "((a, JStr k, JStr v) \<in> native_writes evs \<longleftrightarrow> key_matches rules k \<and> write_decision w a k v)
          \<and> (listed new a k \<longrightarrow> key_matches rules k)
          \<and> (key_matches rules k \<and> write_decision w a k v
              \<and> storage_size (items_of a w) + storage_size ?es \<le> storage_quota w
             \<longrightarrow> listed new a k)"
    using q [rule_format, OF assms(2) assms(3) assms(4)] unfolding prod.case .
  have r: "syncCookiesToStorage w = (Inr (), ?w')"
    using s1 by (simp add: syncCookiesToStorage_def Let_def)
  have tr: "trace ?w' = trace w @ evs @ [SyncComplete ?report]"
    using t1 by (simp add: dispatch_trace)
  have i: "NativeSetItem a (JStr k) (JStr v) \<in> set evs \<longleftrightarrow> ?d"
    using q' assms(5) d by (simp add: native_writes_def)
  have ii: "if listed (syncedKeys ?report) a k then ?d \<and> getItem a k ?w' = Some v
         else getItem a k ?w' = getItem a k w"
    using p' d by (simp add: dispatch_items split: if_splits)
  have iii: "storage_size (items_of a w) + storage_size ?es \<le> storage_quota w
         \<longrightarrow> (listed (syncedKeys ?report) a k \<longleftrightarrow> ?d)"
    using p' q' assms(5) d by (auto split: if_splits)
  have c: "syncCookiesToStorage w = (Inr (), ?w')
     \<and> trace ?w' = trace w @ evs @ [SyncComplete ?report]
     \<and> (NativeSetItem a (JStr k) (JStr v) \<in> set evs \<longleftrightarrow> ?d)
     \<and> (if listed (syncedKeys ?report) a k then ?d \<and> getItem a k ?w' = Some v
         else getItem a k ?w' = getItem a k w)
     \<and> (storage_size (items_of a w) + storage_size ?es \<le> storage_quota w
         \<longrightarrow> (listed (syncedKeys ?report) a k \<longleftrightarrow> ?d))"
    using r tr i ii iii by (intro conjI)
  show ?thesis by (rule exI, rule exI, rule exI, rule c)
qed

theorem sync_write_decision_witness:
  "syncKeys (CONFIG rules_page) = JArr theme_rules
   \<and> list_all stateless_rule theme_rules
   \<and> localStorage \<in> set (getStorageObjects (CONFIG rules_page))
   \<and> (js ''theme'', js ''dark'') \<in> set (getAllSyncCookies rules_page)
   \<and> key_matches theme_rules (js ''theme'')
   \<and> getItem localStorage (js ''theme'') rules_page = None
   \<and> (\<exists>w' evs report. syncCookiesToStorage rules_page = (Inr (), w')
        \<and> trace w' = trace rules_page @ evs @ [SyncComplete report]
        \<and> NativeSetItem localStorage (JStr (js ''theme'')) (JStr (js ''dark'')) \<in> set evs
        \<and> listed (syncedKeys report) localStorage (js ''theme'')
        \<and> getItem localStorage (js ''theme'') w' = Some (js ''dark''))"
proof -
  have h1: "syncKeys (CONFIG rules_page) = JArr theme_rules" by (simp add: rules_page_def)
  have h2: "list_all stateless_rule theme_rules"
    by (simp add: theme_rules_def chat_pattern_def global_def sticky_def)
  have h3: "localStorage \<in> set (getStorageObjects (CONFIG rules_page))"
    by (simp add: rules_page_def world_defs getStorageObjects_def)
  have h4: "(js ''theme'', js ''dark'') \<in> set (getAllSyncCookies rules_page)"
    by (simp add: getAll_rules_page)
  have h5: "key_matches theme_rules (js ''theme'')"
    by (simp add: key_matches_def theme_rules_def js_def)
  have g: "getItem localStorage (js ''theme'') rules_page = None"
    by (simp add: rules_page_def world_defs getItem_def js_def)
  have d: "(truthy (overwriteExisting (CONFIG rules_page))
      \<or> getItem localStorage (js ''theme'') rules_page = None) \<and> js ''dark'' \<noteq> []"
    using g by (simp add: js_def)
  have room: "storage_size (items_of localStorage rules_page)
      + storage_size (getAllSyncCookies rules_page) \<le> storage_quota rules_page"
    unfolding getAll_rules_page
    by (simp add: rules_page_def world_defs storage_size_def js_def)
  from sync_write_decision [OF h1 h2 h3 h4 h5] obtain w1 evs1 report1 where
    a: "syncCookiesToStorage rules_page = (Inr (), w1)"
    and b: "trace w1 = trace rules_page @ evs1 @ [SyncComplete report1]"
    and c: "NativeSetItem localStorage (JStr (js ''theme'')) (JStr (js ''dark'')) \<in> set evs1
      \<longleftrightarrow> (truthy (overwriteExisting (CONFIG rules_page))
          \<or> getItem localStorage (js ''theme'') rules_page = None) \<and> js ''dark'' \<noteq> []"
    and e: "if listed (syncedKeys report1) localStorage (js ''theme'')
         then ((truthy (overwriteExisting (CONFIG rules_page))
                \<or> getItem localStorage (js ''theme'') rules_page = None) \<and> js ''dark'' \<noteq> [])
              \<and> getItem localStorage (js ''theme'') w1 = Some (js ''dark'')
         else getItem localStorage (js ''theme'') w1 = getItem localStorage (js ''theme'') rules_page"
    and f: "storage_size (items_of localStorage rules_page)
          + storage_size (getAllSyncCookies rules_page) \<le> storage_quota rules_page
         \<longrightarrow> (listed (syncedKeys report1) localStorage (js ''theme'') \<longleftrightarrow>
                (truthy (overwriteExisting (CONFIG rules_page))
                 \<or> getItem localStorage (js ''theme'') rules_page = None) \<and> js ''dark'' \<noteq> [])"
    by (elim exE conjE)
  have l: "listed (syncedKeys report1) localStorage (js ''theme'')" using f room d by blast
  have s: "getItem localStorage (js ''theme'') w1 = Some (js ''dark'')" using e l by simp
  have n: "NativeSetItem localStorage (JStr (js ''theme'')) (JStr (js ''dark'')) \<in> set evs1"
    using c d by blast
  have x: "syncCookiesToStorage rules_page = (Inr (), w1)
        \<and> trace w1 = trace rules_page @ evs1 @ [SyncComplete report1]
        \<and> NativeSetItem localStorage (JStr (js ''theme'')) (JStr (js ''dark'')) \<in> set evs1
        \<and> listed (syncedKeys report1) localStorage (js ''theme'')
        \<and> getItem localStorage (js ''theme'') w1 = Some (js ''dark'')"
    using a b n l s by (intro conjI)
  have ex: "\<exists>w' evs report. syncCookiesToStorage rules_page = (Inr (), w')
        \<and> trace w' = trace rules_page @ evs @ [SyncComplete report]
        \<and> NativeSetItem localStorage (JStr (js ''theme'')) (JStr (js ''dark'')) \<in> set evs
        \<and> listed (syncedKeys report) localStorage (js ''theme'')
        \<and> getItem localStorage (js ''theme'') w' = Some (js ''dark'')"
    by (rule exI, rule exI, rule exI, rule x)
  show ?thesis using h1 h2 h3 h4 h5 g ex by (intro conjI)
qed

lemma sync_full_page:
  "syncCookiesToStorage full_page
   = (Inr (), full_page
       \<lparr>trace := [theme_write,
          SyncComplete \<lparr> syncedCount = 0, syncedKeys = [], skippedKeys = [], totalCookies = 2 \<rparr>]\<rparr>)"
  unfolding syncCookiesToStorage_def getAll_full_page
  by (simp add: getStorageObjects_def sync_entry_def shouldSync_def getItem_def
      native_setItem_def storage_size_def getStorageName_def dispatchSyncCompleteEvent_def
      Object_keys_def Let_def full_page_def world_defs js_def theme_write_def)

text \<open>
  The claim as it is written fails where the storage area refuses the write. In the page
  with cookies whose local storage is full, the entry \<^verbatim>\<open>theme\<close> passes the key matcher,
  local storage holds no value for it and the cookie value is not empty; the pass calls
  \<^verbatim>\<open>setItem\<close>, which throws, the pass goes on, and local storage still holds no value.
\<close>

theorem sync_full_storage_not_written:
  "localStorage \<in> set (getStorageObjects (CONFIG full_page))
   \<and> (js ''theme'', js ''dark'') \<in> set (getAllSyncCookies full_page)
   \<and> fst (shouldSync (JStr (js ''theme'')) full_page) = Inr True
   \<and> getItem localStorage (js ''theme'') full_page = None
   \<and> js ''dark'' \<noteq> []
   \<and> fst (syncCookiesToStorage full_page) = Inr ()
   \<and> theme_write \<in> set (trace (snd (syncCookiesToStorage full_page)))
   \<and> getItem localStorage (js ''theme'') (snd (syncCookiesToStorage full_page)) = None"
  unfolding sync_full_page getAll_full_page
  by (simp add: full_page_def world_defs getStorageObjects_def shouldSync_def getItem_def js_def)

section \<open>Loading the script and reinitializing\<close>

lemma getAllSyncCookies_cong:
  "CONFIG w' = CONFIG w \<Longrightarrow> cookies w' = cookies w \<Longrightarrow>
     getAllSyncCookies w' = getAllSyncCookies w"
  by (simp add: getAllSyncCookies_def document_cookie_def)

lemma env_cookie_page:
  "isEnvironmentSupported cookie_page = (True, cookie_page\<lparr>trace := [test_write]\<rparr>)"
  by (simp add: isEnvironmentSupported_def native_setItem_def native_removeItem_def
      storage_size_def world_defs js_def Let_def test_write_def)

lemma validate_default: "validateConfig CONFIG_default = Inr (True, CONFIG_default)"
  by (simp add: validateConfig_def CONFIG_default_def validStorageTypes_def js_def)

lemma sync_first_pass:
  "syncCookiesToStorage (cookie_page\<lparr>trace := [test_write]\<rparr>)
   = (Inr (), cookie_page
       \<lparr>localStorage_items := [(js ''lang'', js ''en''), (js ''theme'', js ''dark'')],
        trace := [test_write, theme_write, SyncComplete first_report]\<rparr>)"
proof -
  have g: "getAllSyncCookies (cookie_page\<lparr>trace := [test_write]\<rparr>)
      = [(js ''theme'', js ''dark''), (js ''empty'', [])]"
    using getAllSyncCookies_cong [of "cookie_page\<lparr>trace := [test_write]\<rparr>" cookie_page]
    by (simp add: getAll_cookie_page)
  show ?thesis
    unfolding syncCookiesToStorage_def g
    by (simp add: getStorageObjects_def sync_entry_def shouldSync_def getItem_def
        native_setItem_def storage_size_def getStorageName_def dispatchSyncCompleteEvent_def
        Object_keys_def Let_def world_defs js_def first_report_def theme_write_def)
qed

lemma init_cookie_page:
  "init cookie_page = (True, cookie_page
     \<lparr>localStorage_items := [(js ''lang'', js ''en''), (js ''theme'', js ''dark'')],
      Storage_setItem := Wrapper Native,
      Storage_removeItem := Wrapper Native,
      Storage_clear := Wrapper Native,
      storage_listeners := 1,
      trace := [test_write, theme_write, SyncComplete first_report]\<rparr>)"
proof -
  let ?w1 = "cookie_page\<lparr>trace := [test_write]\<rparr>"
  have cfg: "CONFIG ?w1 = CONFIG_default" by (simp add: world_defs)
  have c: "?w1\<lparr>CONFIG := CONFIG_default\<rparr> = ?w1"
    by (simp add: world_defs)
  have "init cookie_page =
      (case syncCookiesToStorage ?w1 of
         (Inl e, w3) \<Rightarrow> (False, w3)
       | (Inr u, w3) \<Rightarrow> (True, setupLocalChangeDetection (setupStorageListener w3)))"
    unfolding init_def env_cookie_page
    by (simp only: prod.case bool.case sum.case cfg validate_default c Let_def)
  then show ?thesis
    by (simp add: sync_first_pass setupStorageListener_def setupLocalChangeDetection_def)
       (simp add: world_defs)
qed

lemma module_load_cookie_page: "module_load cookie_page = loaded_page"
proof -
  have c: "cookie_page\<lparr>CONFIG := CONFIG_default, originalSetItem := Storage_setItem cookie_page,
       originalRemoveItem := Storage_removeItem cookie_page,
       originalClear := Storage_clear cookie_page, storage_listeners := 0,
       complete_listener := False, syncCompleteResolve := False, syncCompletePromise := None\<rparr>
     = cookie_page"
    by (simp add: world_defs)
  show ?thesis
    unfolding module_load_def c Let_def init_cookie_page
    by (simp add: loaded_page_def) (simp add: world_defs)
qed

lemma frame_Storage_setItem: "frame w' = frame w \<Longrightarrow> Storage_setItem w' = Storage_setItem w"
  by (drule arg_cong [where f = Storage_setItem]) (simp add: frame_def)

lemma deleteFromCookie_effect:
  "deleteFromCookie key w = (r, w') \<Longrightarrow> frame w' = frame w"
  unfolding deleteFromCookie_def deleteFromCookie_try_def Let_def
  by (auto split: option.splits sum.splits simp: set_document_cookie_frame)

lemma native_removeItem_frame:
  "native_removeItem a key w = (r, w') \<Longrightarrow> frame w' = frame w"
  unfolding native_removeItem_def by (auto split: sum.splits)

lemma call_removeItem_frame:
  "call_removeItem p a key w = (r, w') \<Longrightarrow> frame w' = frame w"
proof (induction p arbitrary: r w')
  case Native
  then show ?case using native_removeItem_frame by simp
next
  case (Wrapper p)
  obtain r1 w1 where c1: "call_removeItem p a key w = (r1, w1)" by (cases "call_removeItem p a key w")
  have f1: "frame w1 = frame w" using Wrapper.IH [OF c1] .
  obtain r2 w2 where c2: "shouldSync key w1 = (r2, w2)" by (cases "shouldSync key w1")
  have f2: "frame w2 = frame w1" using shouldSync_effect(1) [OF c2] .
  obtain r3 w3 where c3: "deleteFromCookie key w2 = (r3, w3)" by (cases "deleteFromCookie key w2")
  have f3: "frame w3 = frame w2" using deleteFromCookie_effect [OF c3] .
  have "w' = w1 \<or> w' = w2 \<or> w' = w3" using Wrapper.prems c1 c2 c3
    by (auto split: sum.splits if_splits)
  then show ?case using f1 f2 f3 by auto
qed

lemma isEnvironmentSupported_frame:
  "isEnvironmentSupported w = (r, w') \<Longrightarrow> frame w' = frame w"
proof -
  assume a: "isEnvironmentSupported w = (r, w')"
  let ?k = "JStr (js ''__storage_sync_test__'')"
  obtain r1 w1 where c1: "call_setItem (Storage_setItem w) localStorage ?k (JStr (js ''test'')) w = (r1, w1)"
    by (cases "call_setItem (Storage_setItem w) localStorage ?k (JStr (js ''test'')) w")
  have f1: "frame w1 = frame w" using call_setItem_effect [OF c1] by simp
  obtain r2 w2 where c2: "call_removeItem (Storage_removeItem w1) localStorage ?k w1 = (r2, w2)"
    by (cases "call_removeItem (Storage_removeItem w1) localStorage ?k w1")
  have f2: "frame w2 = frame w1" using call_removeItem_frame [OF c2] .
  have "w' = w1 \<or> w' = w2" using a c1 c2
    by (auto simp: isEnvironmentSupported_def Let_def split: sum.splits)
  then show ?thesis using f1 f2 by auto
qed

lemma validateConfig_syncKeys:
  "validateConfig c = Inr (v, c') \<Longrightarrow> \<exists>rules. syncKeys c' = JArr rules"
  unfolding validateConfig_def Let_def
  by (cases "syncKeys c") (auto split: if_splits prod.splits sum.splits)

lemma dispatch_fields:
  "Storage_setItem (dispatchSyncCompleteEvent d w) = Storage_setItem w"
  "originalSetItem (dispatchSyncCompleteEvent d w) = originalSetItem w"
  by (simp_all add: dispatchSyncCompleteEvent_def Let_def)

lemma syncCookiesToStorage_prims:
  assumes "syncKeys (CONFIG w) = JArr rules" and "syncCookiesToStorage w = (r, w')"
  shows "r = Inr () \<and> Storage_setItem w' = Storage_setItem w \<and> originalSetItem w' = originalSetItem w"
proof -
  from syncCookiesToStorage_effect [OF assms(1)] obtain d w1 where
    f: "frame w1 = frame w"
    and s: "syncCookiesToStorage w = (Inr (), dispatchSyncCompleteEvent d w1)"
    by (elim exE conjE)
  have "r = Inr ()" and "w' = dispatchSyncCompleteEvent d w1"
    using assms(2) s by simp_all
  then show ?thesis using frame_Storage_setItem [OF f] frame_originalSetItem [OF f]
    by (simp add: dispatch_fields)
qed

lemma init_prims:
  assumes "init w = (r, w')"
  shows "originalSetItem w' = originalSetItem w
     \<and> Storage_setItem w' = (if r then Wrapper (originalSetItem w) else Storage_setItem w)"
proof -
  obtain b w1 where e: "isEnvironmentSupported w = (b, w1)" by (cases "isEnvironmentSupported w")
  have f1: "frame w1 = frame w" using isEnvironmentSupported_frame [OF e] .
  have stop: ?thesis if "r = False" "w' = w1"
    using that frame_Storage_setItem [OF f1] frame_originalSetItem [OF f1] by simp
  show ?thesis
  proof (cases b)
    case False
    then have "r = False" "w' = w1" using assms e by (simp_all add: init_def)
    then show ?thesis by (rule stop)
  next
    case True
    show ?thesis
    proof (cases "validateConfig (CONFIG w1)")
      case (Inl err)
      then have "r = False" "w' = w1" using assms e True by (simp_all add: init_def)
      then show ?thesis by (rule stop)
    next
      case (Inr vc)
      obtain v c where vc: "vc = (v, c)" by (cases vc)
      let ?w2 = "w1\<lparr>CONFIG := c\<rparr>"
      obtain rules where k: "syncKeys (CONFIG ?w2) = JArr rules"
        using validateConfig_syncKeys [of "CONFIG w1" v c] Inr vc by auto
      obtain r3 w3 where s: "syncCookiesToStorage ?w2 = (r3, w3)" by (cases "syncCookiesToStorage ?w2")
      from syncCookiesToStorage_prims [OF k s] have
        r3: "r3 = Inr ()" and p3: "Storage_setItem w3 = Storage_setItem ?w2"
        "originalSetItem w3 = originalSetItem ?w2" by simp_all
      have "r = True" "w' = setupLocalChangeDetection (setupStorageListener w3)"
        using assms e True Inr vc s r3 by (simp_all add: init_def Let_def)
      then show ?thesis
        using p3 frame_originalSetItem [OF f1]
        by (simp add: setupLocalChangeDetection_def setupStorageListener_def)
    qed
  qed
qed

lemma reinitialize_invariant:
  assumes "wrapper_installed_once w"
  shows "wrapper_installed_once (snd (reinitialize (w\<lparr>CONFIG := c\<rparr>)))"
proof -
  obtain r w1 where i: "init (w\<lparr>CONFIG := c\<rparr>) = (r, w1)" by (cases "init (w\<lparr>CONFIG := c\<rparr>)")
  from init_prims [OF i] have
    "originalSetItem w1 = originalSetItem w"
    "Storage_setItem w1 = (if r then Wrapper (originalSetItem w) else Storage_setItem w)"
    by simp_all
  then show ?thesis using assms i
    by (auto simp: wrapper_installed_once_def reinitialize_def split: if_splits)
qed

lemma reinitialize_with_invariant:
  "wrapper_installed_once w \<Longrightarrow> wrapper_installed_once (reinitialize_with cs w)"
  by (induction cs arbitrary: w) (auto simp: reinitialize_invariant)

lemma module_load_invariant:
  assumes "Storage_setItem page = Native"
  shows "wrapper_installed_once (module_load page)"
proof -
  let ?w0 = "page\<lparr>CONFIG := CONFIG_default,
                    originalSetItem := Storage_setItem page,
                    originalRemoveItem := Storage_removeItem page,
                    originalClear := Storage_clear page,
                    storage_listeners := 0,
                    complete_listener := False,
                    syncCompleteResolve := False,
                    syncCompletePromise := None\<rparr>"
  obtain r w1 where i: "init ?w0 = (r, w1)" by (cases "init ?w0")
  from init_prims [OF i] assms have
    "originalSetItem w1 = Native"
    "Storage_setItem w1 = (if r then Wrapper Native else Native)"
    by simp_all
  then show ?thesis using i
    by (simp add: module_load_def wrapper_installed_once_def Let_def)
qed

lemmas cookie_defs = set_document_cookie_def writeToCookie_def writeToCookie_try_def
  deleteFromCookie_def deleteFromCookie_try_def getParentDomain_def Number_toString_def
  digits10.simps attribute_def delta_seconds_def digits_value_def trim_wsp_def is_wsp_def
  to_lower_def is_digit_def ipv4_pattern_def OneOrMore_def uriUnescaped_def
  replace_forbidden_def comma_def underscore_def

lemma getAll_loaded_page:
  "cookies w = cookies cookie_page \<Longrightarrow> CONFIG w = CONFIG cookie_page \<Longrightarrow>
   getAllSyncCookies w = [(js ''theme'', js ''dark''), (js ''empty'', [])]"
  using getAllSyncCookies_cong [of w cookie_page] by (simp add: getAll_cookie_page)

lemma loaded_fields:
  "CONFIG loaded_page = CONFIG_default"
  "cookies loaded_page = cookies cookie_page"
  "loaded_page\<lparr>CONFIG := CONFIG_default\<rparr> = loaded_page"
  by (simp_all add: loaded_page_def world_defs)

lemma Suc_Suc_0: "Suc (Suc 0) = 2"
  by simp

lemma sync_second_pass:
  assumes "cookies w = cookies cookie_page" and "CONFIG w = CONFIG_default"
    and "localStorage_items w = [(js ''lang'', js ''en''), (js ''theme'', js ''dark'')]"
  shows "syncCookiesToStorage w = (Inr (), dispatchSyncCompleteEvent second_report w)"
proof -
  have g: "getAllSyncCookies w = [(js ''theme'', js ''dark''), (js ''empty'', [])]"
    using assms by (intro getAll_loaded_page) (simp_all add: world_defs)
  show ?thesis
    unfolding syncCookiesToStorage_def g
    by (simp add: assms getStorageObjects_def sync_entry_def shouldSync_def getItem_def
        getStorageName_def Object_keys_def Let_def CONFIG_default_def js_def second_report_def
        Suc_Suc_0)
qed

lemma sync_loaded_page:
  "syncCookiesToStorage loaded_page
   = (Inr (), loaded_page\<lparr>syncCompleteResolve := False,
        syncCompletePromise := Some second_report,
        trace := trace loaded_page @ [SyncComplete second_report]\<rparr>)"
proof -
  have "syncCookiesToStorage loaded_page = (Inr (), dispatchSyncCompleteEvent second_report loaded_page)"
    by (rule sync_second_pass) (simp_all add: loaded_page_def world_defs)
  then show ?thesis
    by (simp add: dispatchSyncCompleteEvent_def Let_def loaded_page_def world_defs)
qed

lemma ready_pending_after_load: "ready (module_load page) = None"
  by (simp add: module_load_def ready_def Let_def split: prod.splits)

text \<open>
  Claim C3. The claim says the promise of \<^verbatim>\<open>ready()\<close> resolves with the report of the
  first replay pass, the one of initialization at load. The script runs \<^verbatim>\<open>init()\<close> before
  it creates the promise and adds the listener that resolves it, so the first report is
  dispatched to no listener: after loading, the promise is pending in every page, and in
  the page with cookies it resolves with the report of the second pass, which differs from
  the first.
\<close>

theorem ready_misses_first_report:
  "ready (module_load page) = None
   \<and> isInitialized (module_load cookie_page)
   \<and> trace (module_load cookie_page) = [test_write, theme_write, SyncComplete first_report]
   \<and> ready (module_load cookie_page) = None
   \<and> ready (snd (syncCookiesToStorage (module_load cookie_page))) = Some second_report
   \<and> second_report \<noteq> first_report"
proof -
  have 1: "isInitialized (module_load cookie_page)"
    unfolding module_load_cookie_page by (simp add: loaded_page_def)
  have 2: "trace (module_load cookie_page) = [test_write, theme_write, SyncComplete first_report]"
    unfolding module_load_cookie_page by (simp add: loaded_page_def)
  have 3: "ready (snd (syncCookiesToStorage (module_load cookie_page))) = Some second_report"
    unfolding module_load_cookie_page sync_loaded_page by (simp add: ready_def)
  have 4: "second_report \<noteq> first_report"
    by (simp add: first_report_def second_report_def)
  show ?thesis
    using ready_pending_after_load [of page] ready_pending_after_load [of cookie_page] 1 2 3 4
    by simp
qed

lemma cookie_writes_simps [simp]:
  "cookie_writes [] = 0"
  "cookie_writes (xs @ ys) = cookie_writes xs + cookie_writes ys"
  "cookie_writes (NativeSetItem a k v # xs) = cookie_writes xs"
  "cookie_writes (CookieAssigned s # xs) = Suc (cookie_writes xs)"
  by (simp_all add: cookie_writes_def)

lemma cookie_writes_le: "cookie_writes evs \<le> length evs"
  by (simp add: cookie_writes_def)

lemma writeToCookie_try_result_cong:
  "CONFIG w1 = CONFIG w \<Longrightarrow> hostname w1 = hostname w \<Longrightarrow>
     fst (writeToCookie_try key val w1) = fst (writeToCookie_try key val w)"
  unfolding writeToCookie_try_def Let_def
  by (auto split: option.splits sum.splits)

lemma writeToCookie_result_cong:
  assumes "frame w1 = frame w"
  shows "fst (writeToCookie key val w1) = fst (writeToCookie key val w)"
proof -
  have "fst (writeToCookie_try key val w1) = fst (writeToCookie_try key val w)"
    using frame_CONFIG [OF assms] frame_hostname [OF assms] by (rule writeToCookie_try_result_cong)
  then show ?thesis
    unfolding writeToCookie_def
    by (cases "writeToCookie_try key val w1"; cases "writeToCookie_try key val w")
       (auto split: sum.splits)
qed

lemma writeToCookie_True_trace:
  "fst (writeToCookie key val w) = Inr True \<Longrightarrow>
     cookie_writes (trace (snd (writeToCookie key val w))) = cookie_writes (trace w) + 1"
  unfolding writeToCookie_def writeToCookie_try_def Let_def
  by (auto split: option.splits sum.splits simp: set_document_cookie_frame)

lemma writeToCookie_trace_le:
  "cookie_writes (trace (snd (writeToCookie key val w))) \<le> cookie_writes (trace w) + 1"
proof -
  obtain r w' where c: "writeToCookie key val w = (r, w')" by (cases "writeToCookie key val w")
  from writeToCookie_effect [OF c, of localStorage] obtain evs where
    "trace w' = trace w @ evs" "length evs \<le> 1" by blast
  then show ?thesis using c cookie_writes_le [of evs] by simp
qed

lemma native_setItem_trace:
  "cookie_writes (trace (snd (native_setItem a key val w))) = cookie_writes (trace w)"
proof -
  obtain r w' where c: "native_setItem a key val w = (r, w')" by (cases "native_setItem a key val w")
  from native_setItem_effect [OF c] show ?thesis using c by simp
qed

lemma shouldSync_result_cong:
  "CONFIG w1 = CONFIG w \<Longrightarrow> lastIndex w1 = lastIndex w \<Longrightarrow>
     fst (shouldSync key w1) = fst (shouldSync key w)"
  by (simp add: shouldSync_def split: jsval.splits prod.splits)

lemma wrapper_call_le:
  "cookie_writes (trace (snd (call_setItem (Wrapper Native) a key val w)))
     \<le> cookie_writes (trace w) + 1"
proof -
  obtain r1 w1 where c1: "native_setItem a key val w = (r1, w1)" by (cases "native_setItem a key val w")
  have t1: "cookie_writes (trace w1) = cookie_writes (trace w)"
    using native_setItem_trace [of a key val w] c1 by simp
  obtain r2 w2 where c2: "shouldSync key w1 = (r2, w2)" by (cases "shouldSync key w1")
  have t2: "trace w2 = trace w1" using shouldSync_effect(2) [OF c2] .
  have "snd (call_setItem (Wrapper Native) a key val w) = w1
      \<or> snd (call_setItem (Wrapper Native) a key val w) = w2
      \<or> snd (call_setItem (Wrapper Native) a key val w) = snd (writeToCookie key val w2)"
    using c1 c2 by (auto split: sum.splits prod.splits)
  then show ?thesis using t1 t2 writeToCookie_trace_le [of key val w2] by auto
qed

lemma wrapper_call_exact:
  assumes "fst (call_setItem (Wrapper Native) a key val w) = Inr ()"
    and "shouldSyncStorage (CONFIG w) a" and "fst (shouldSync key w) = Inr True"
    and "fst (writeToCookie key val w) = Inr True"
  shows "cookie_writes (trace (snd (call_setItem (Wrapper Native) a key val w)))
     = cookie_writes (trace w) + 1"
proof -
  obtain r1 w1 where c1: "native_setItem a key val w = (r1, w1)" by (cases "native_setItem a key val w")
  have f1: "frame w1 = frame w" and l1: "lastIndex w1 = lastIndex w"
    and t1: "cookie_writes (trace w1) = cookie_writes (trace w)"
    using native_setItem_effect [OF c1] native_setItem_trace [of a key val w] c1 by simp_all
  have cfg: "CONFIG w1 = CONFIG w" using f1 by (rule frame_CONFIG)
  have r1: "r1 = Inr ()" using assms(1) c1 by (cases r1) simp_all
  obtain r2 w2 where c2: "shouldSync key w1 = (r2, w2)" by (cases "shouldSync key w1")
  have r2: "r2 = Inr True" using shouldSync_result_cong [OF cfg l1, of key] c2 assms(3) by simp
  have f2: "frame w2 = frame w1" and t2: "trace w2 = trace w1"
    using shouldSync_effect(1,2) [OF c2] by simp_all
  have "snd (call_setItem (Wrapper Native) a key val w) = snd (writeToCookie key val w2)"
    using c1 r1 cfg assms(2) c2 r2 by (simp split: prod.splits sum.splits)
  moreover have "fst (writeToCookie key val w2) = Inr True"
    using writeToCookie_result_cong [of w2 w key val] f1 f2 assms(4) by simp
  ultimately show ?thesis using writeToCookie_True_trace [of key val w2] t1 t2 by simp
qed

lemma loaded_running:
  "loaded_page = running_page 1 True None [test_write, theme_write, SyncComplete first_report]"
  by (simp add: running_page_def loaded_page_def world_defs)

lemma running_fields:
  "CONFIG (running_page n b p t) = CONFIG_default"
  "cookies (running_page n b p t) = cookies cookie_page"
  "running_page n b p t\<lparr>CONFIG := CONFIG_default\<rparr> = running_page n b p t"
  "isInitialized (running_page n b p t)"
  "Storage_setItem (running_page n b p t) = Wrapper Native"
  "trace (running_page n b p t) = t"
  by (simp_all add: running_page_def loaded_page_def world_defs)

lemma env_running_page:
  "isEnvironmentSupported (running_page n b p t)
   = (True, running_page n b p (t @ [test_write, test_cookie_set, test_cookie_delete]))"
  by (simp add: isEnvironmentSupported_def native_setItem_def native_removeItem_def
      storage_size_def shouldSyncStorage_def shouldSync_def running_page_def
      loaded_page_def world_defs cookie_defs string_defs Let_def test_write_def
      test_cookie_set_def test_cookie_delete_def)

lemma reinitialize_running_page:
  "reinitialize (running_page n b p t\<lparr>CONFIG := CONFIG_default\<rparr>)
   = (True, running_page (n + 1) False
        (if b then (case p of None \<Rightarrow> Some second_report | Some r \<Rightarrow> Some r) else p)
        (t @ reinit_events))"
proof -
  let ?w1 = "running_page n b p (t @ [test_write, test_cookie_set, test_cookie_delete])"
  have s: "syncCookiesToStorage ?w1 = (Inr (), dispatchSyncCompleteEvent second_report ?w1)"
    by (rule sync_second_pass) (simp_all add: running_page_def loaded_page_def world_defs)
  have "init (running_page n b p t) =
      (case syncCookiesToStorage ?w1 of
         (Inl e, w3) \<Rightarrow> (False, w3)
       | (Inr u, w3) \<Rightarrow> (True, setupLocalChangeDetection (setupStorageListener w3)))"
    unfolding init_def env_running_page
    by (simp only: prod.case bool.case sum.case running_fields validate_default Let_def)
  then have "init (running_page n b p t)
      = (True, setupLocalChangeDetection (setupStorageListener (dispatchSyncCompleteEvent second_report ?w1)))"
    by (simp add: s)
  then show ?thesis
    unfolding reinitialize_def running_fields
    by (simp add: setupLocalChangeDetection_def setupStorageListener_def
        dispatchSyncCompleteEvent_def Let_def reinit_events_def)
       (simp add: running_page_def loaded_page_def world_defs)
qed

lemma twice_reinitialized:
  "reinitialize_with [CONFIG_default, CONFIG_default] (module_load cookie_page)
   = running_page 3 False (Some second_report)
       ([test_write, theme_write, SyncComplete first_report] @ reinit_events @ reinit_events)"
  unfolding module_load_cookie_page loaded_running
  by (simp add: reinitialize_running_page numeral_3_eq_3)

lemma setItem_running_page:
  "call_setItem (Wrapper Native) localStorage (JStr (js ''k'')) (JStr (js ''v'')) (running_page n b p t)
   = (Inr (), running_page n b p
        (t @ [NativeSetItem localStorage (JStr (js ''k'')) (JStr (js ''v'')),
              CookieAssigned (js ''sds_sync_k=v; max-age=31536000; domain=.example.com; path=/; SameSite=Lax'')])
        \<lparr>cookies := cookies cookie_page @ [(js ''sds_sync_k'', js ''v'')],
         localStorage_items := [(js ''lang'', js ''en''), (js ''theme'', js ''dark''), (js ''k'', js ''v'')]\<rparr>)"
  by (simp add: native_setItem_def storage_size_def shouldSyncStorage_def shouldSync_def
      running_page_def loaded_page_def world_defs cookie_defs string_defs Let_def)

text \<open>
  Claim C9. In a page whose \<^verbatim>\<open>Storage.prototype.setItem\<close> is the browser's when the
  script loads, after any number of reinitializations, each with any configuration,
  \<^verbatim>\<open>Storage.prototype.setItem\<close> is the browser's primitive or a single wrapper around
  it, never a wrapper around a wrapper; one call of it assigns \<^verbatim>\<open>document.cookie\<close> at
  most once, and exactly once when initialization succeeded, the storage area is in
  scope, the key matches and the cookie write succeeds.
\<close>

theorem reinitialize_installs_one_wrapper:
  fixes page :: world and cfgs :: "config list"
  defines "w \<equiv> reinitialize_with cfgs (module_load page)"
  assumes "Storage_setItem page = Native"
  shows "(Storage_setItem w = Native \<or> Storage_setItem w = Wrapper Native)
    \<and> (isInitialized w \<longrightarrow> Storage_setItem w = Wrapper Native)
    \<and> cookie_writes (trace (snd (call_setItem (Storage_setItem w) a key val w)))
        \<le> cookie_writes (trace w) + 1
    \<and> (isInitialized w \<and> fst (call_setItem (Storage_setItem w) a key val w) = Inr ()
        \<and> shouldSyncStorage (CONFIG w) a \<and> fst (shouldSync key w) = Inr True
        \<and> fst (writeToCookie key val w) = Inr True
       \<longrightarrow> cookie_writes (trace (snd (call_setItem (Storage_setItem w) a key val w)))
           = cookie_writes (trace w) + 1)"
proof -
  have inv: "wrapper_installed_once w"
    unfolding w_def using assms(2) by (intro reinitialize_with_invariant module_load_invariant)
  then have p: "Storage_setItem w = Native \<or> Storage_setItem w = Wrapper Native"
    and i: "isInitialized w \<longrightarrow> Storage_setItem w = Wrapper Native"
    by (auto simp: wrapper_installed_once_def split: if_splits)
  have le: "cookie_writes (trace (snd (call_setItem (Storage_setItem w) a key val w)))
        \<le> cookie_writes (trace w) + 1"
    using p wrapper_call_le [of a key val w] native_setItem_trace [of a key val w] by auto
  have ex: "cookie_writes (trace (snd (call_setItem (Storage_setItem w) a key val w)))
           = cookie_writes (trace w) + 1"
    if "isInitialized w" "fst (call_setItem (Storage_setItem w) a key val w) = Inr ()"
      "shouldSyncStorage (CONFIG w) a" "fst (shouldSync key w) = Inr True"
      "fst (writeToCookie key val w) = Inr True"
    using that i wrapper_call_exact [of a key val w] by simp
  show ?thesis using p i le ex by blast
qed

theorem reinitialize_installs_one_wrapper_witness:
  "Storage_setItem cookie_page = Native
   \<and> isInitialized (reinitialize_with [CONFIG_default, CONFIG_default] (module_load cookie_page))
   \<and> Storage_setItem (reinitialize_with [CONFIG_default, CONFIG_default] (module_load cookie_page))
       = Wrapper Native
   \<and> cookie_writes (trace (snd (call_setItem
         (Storage_setItem (reinitialize_with [CONFIG_default, CONFIG_default] (module_load cookie_page)))
         localStorage (JStr (js ''k'')) (JStr (js ''v''))
         (reinitialize_with [CONFIG_default, CONFIG_default] (module_load cookie_page)))))
     = cookie_writes (trace (reinitialize_with [CONFIG_default, CONFIG_default] (module_load cookie_page))) + 1"
proof -
  let ?w = "reinitialize_with [CONFIG_default, CONFIG_default] (module_load cookie_page)"
  let ?t = "[test_write, theme_write, SyncComplete first_report] @ reinit_events @ reinit_events"
  have h: "Storage_setItem cookie_page = Native" by (simp add: world_defs)
  have w: "?w = running_page 3 False (Some second_report) ?t" by (rule twice_reinitialized)
  have 1: "isInitialized ?w" and 2: "Storage_setItem ?w = Wrapper Native"
    unfolding w by (simp_all add: running_fields)
  have 3: "fst (call_setItem (Storage_setItem ?w) localStorage (JStr (js ''k'')) (JStr (js ''v'')) ?w) = Inr ()"
    unfolding 2 unfolding w by (simp only: setItem_running_page fst_conv)
  have 4: "shouldSyncStorage (CONFIG ?w) localStorage"
    unfolding w by (simp add: running_fields shouldSyncStorage_def CONFIG_default_def)
  have 5: "fst (shouldSync (JStr (js ''k'')) ?w) = Inr True"
    unfolding w by (simp add: running_fields shouldSync_def CONFIG_default_def js_def)
  have 6: "fst (writeToCookie (JStr (js ''k'')) (JStr (js ''v'')) ?w) = Inr True"
    unfolding w
    by (simp add: running_page_def loaded_page_def world_defs cookie_defs string_defs Let_def)
  show ?thesis
    using reinitialize_installs_one_wrapper [OF h, of "[CONFIG_default, CONFIG_default]"
        localStorage "JStr (js ''k'')" "JStr (js ''v'')"] h 1 2 3 4 5 6
    by blast
qed

section \<open>URI component round trip\<close>





lemma length_escape: "length (concat (map escape_octet bs)) = 3 * length bs"
  by (induction bs) (simp_all add: escape_octet_def)

lemma drop_escape:
  "drop (3 * length bs) (concat (map escape_octet bs) @ rest) = rest"
  using length_escape [of bs] by simp

lemma split_64: "(cp::nat) div 64 * 64 + cp mod 64 = cp"
  by simp



























section \<open>Cookie jar\<close>









lemma dropWhile_hd: "s = [] \<or> \<not> P (hd s) \<Longrightarrow> dropWhile P s = s"
  by (cases s) auto

lemma drop_both_ends:
  assumes "s = [] \<or> (\<not> P (hd s) \<and> \<not> P (last s))"
  shows "rev (dropWhile P (rev (dropWhile P s))) = s"
proof -
  have 1: "dropWhile P s = s" using assms by (intro dropWhile_hd) auto
  have "rev s = [] \<or> \<not> P (hd (rev s))" using assms by (cases "s = []") (simp_all add: hd_rev)
  then have 2: "dropWhile P (rev s) = rev s" by (rule dropWhile_hd)
  show ?thesis unfolding 1 2 by simp
qed

lemma trim_wsp_id:
  "s = [] \<or> (\<not> is_wsp (hd s) \<and> \<not> is_wsp (last s)) \<Longrightarrow> trim_wsp s = s"
  unfolding trim_wsp_def by (rule drop_both_ends)



lemma trim_wsp_space: "trim_wsp (0x20 # s) = trim_wsp s"
  by (simp add: trim_wsp_def is_wsp_def)

lemma indexOf_append: "c \<notin> set a \<Longrightarrow> indexOf (a @ c # b) c = Some (length a)"
  by (induction a) auto

lemma attribute_max_age:
  assumes "N = [] \<or> (\<not> is_wsp (hd N) \<and> \<not> is_wsp (last N))"
  shows "attribute (js '' max-age='' @ N) = (js ''max-age'', N)"
proof -
  have i: "indexOf (js '' max-age='' @ N) equals = Some 8"
    by (simp add: js_def equals_def)
  have t: "trim_wsp (js '' max-age'') = js ''max-age''"
    by (simp add: trim_wsp_def is_wsp_def js_def)
  show ?thesis
    unfolding attribute_def i using t trim_wsp_id [OF assms] by (simp add: js_def)
qed

lemma attribute_others:
  "fst (attribute (js '' domain='' @ D)) = js ''domain''"
  "fst (attribute (js '' path=/'')) = js ''path''"
  "fst (attribute (js '' SameSite=Lax'')) = js ''SameSite''"
  by (simp_all add: attribute_def js_def equals_def trim_wsp_def is_wsp_def)

lemma Max_Age_sync_cookie:
  assumes "delta_seconds N = Some d" and "N = [] \<or> (\<not> is_wsp (hd N) \<and> \<not> is_wsp (last N))"
  shows "Max_Age [js '' max-age='' @ N, js '' domain='' @ D, js '' path=/'', js '' SameSite=Lax'']
      None = Some d"
  using assms(1)
  by (simp add: attribute_max_age [OF assms(2)] attribute_others) (simp add: js_def to_lower_def)

lemma sync_cookie_pieces:
  assumes "semicolon \<notin> set name" "semicolon \<notin> set val" "semicolon \<notin> set N" "semicolon \<notin> set D"
  shows "split (name @ js ''='' @ val @ js ''; max-age='' @ N @ js ''; domain='' @ D
        @ js ''; path=/; SameSite=Lax'') semicolon
     = [name @ equals # val, js '' max-age='' @ N, js '' domain='' @ D, js '' path=/'',
        js '' SameSite=Lax'']"
proof -
  have e: "name @ js ''='' @ val @ js ''; max-age='' @ N @ js ''; domain='' @ D
        @ js ''; path=/; SameSite=Lax''
      = (name @ equals # val) @ semicolon # (js '' max-age='' @ N) @ semicolon
        # (js '' domain='' @ D) @ semicolon # js '' path=/'' @ semicolon # js '' SameSite=Lax''"
    by (simp add: js_def semicolon_def equals_def)
  have 1: "semicolon \<notin> set (name @ equals # val)"
    using assms(1,2) by (simp add: semicolon_def equals_def)
  have 2: "semicolon \<notin> set (js '' max-age='' @ N)"
    using assms(3) by (simp add: js_def semicolon_def)
  have 3: "semicolon \<notin> set (js '' domain='' @ D)"
    using assms(4) by (simp add: js_def semicolon_def)
  have 4: "semicolon \<notin> set (js '' path=/'')" "semicolon \<notin> set (js '' SameSite=Lax'')"
    by (simp_all add: js_def semicolon_def)
  show ?thesis
    unfolding e
    by (simp only: split_append_sep [OF 1] split_append_sep [OF 2] split_append_sep [OF 3]
        split_append_sep [OF 4(1)] split_no_sep [OF 4(2)])
qed

lemma assign_sync_cookie:
  assumes "name \<noteq> []" "semicolon \<notin> set name" "equals \<notin> set name"
    "\<not> is_wsp (hd name)" "\<not> is_wsp (last name)"
    and "semicolon \<notin> set val" "val = [] \<or> (\<not> is_wsp (hd val) \<and> \<not> is_wsp (last val))"
    and "semicolon \<notin> set N" "delta_seconds N = Some d"
      "N = [] \<or> (\<not> is_wsp (hd N) \<and> \<not> is_wsp (last N))"
    and "semicolon \<notin> set D"
  shows "cookies (set_document_cookie (name @ js ''='' @ val @ js ''; max-age='' @ N
        @ js ''; domain='' @ D @ js ''; path=/; SameSite=Lax'') w)
     = (if d \<le> 0 then AList.delete name (cookies w)
        else if length name + length val > cookie_limit w then cookies w
        else AList.update name val (cookies w))"
proof -
  note p = sync_cookie_pieces [OF assms(2,6,8,11)]
  have i: "indexOf (name @ equals # val) equals = Some (length name)"
    using assms(3) by (rule indexOf_append)
  have n: "trim_wsp name = name" using assms(4,5) by (intro trim_wsp_id) simp
  have v: "trim_wsp val = val" using assms(7) by (rule trim_wsp_id)
  note m = Max_Age_sync_cookie [OF assms(9,10), of D]
  show ?thesis
    unfolding set_document_cookie_def p Let_def list.sel i option.case
    by (simp add: n v m assms(1) del: Max_Age.simps)
qed

lemma set_split: "p \<in> set (split s sep) \<Longrightarrow> set p \<subseteq> set s"
proof (induction s arbitrary: p)
  case Nil
  then show ?case by simp
next
  case (Cons c cs)
  show ?case
  proof (cases "c = sep")
    case True
    then show ?thesis using Cons by auto
  next
    case False
    show ?thesis
    proof (cases "split cs sep")
      case Nil
      then show ?thesis using Cons.prems False by simp
    next
      case (Cons q qs)
      then have "p = c # q \<or> p \<in> set qs" using Cons.prems False by simp
      then show ?thesis using Cons.IH [of q] Cons.IH [of p] Cons by auto
    qed
  qed
qed

lemma set_join: "set (join ps sep) \<subseteq> (\<Union>p\<in>set ps. set p) \<union> set sep"
  by (induction ps sep rule: join.induct) auto

lemma getParentDomain_chars:
  assumes "c \<in> set (getParentDomain h)"
  shows "c \<in> set h \<or> c = dot"
proof -
  let ?parts = "split h dot"
  have "set (join (drop (length ?parts - 2) ?parts) (js ''.'')) \<subseteq> set h \<union> {dot}"
  proof -
    have "(\<Union>p\<in>set (drop (length ?parts - 2) ?parts). set p) \<subseteq> set h"
      using set_split [of _ h dot] by (auto dest: in_set_dropD)
    moreover have "set (js ''.'') = {dot}" by (simp add: js_def dot_def)
    ultimately show ?thesis using set_join [of "drop (length ?parts - 2) ?parts" "js ''.''"] by blast
  qed
  moreover have "set (js ''.'') = {dot}" by (simp add: js_def dot_def)
  ultimately show ?thesis
    using assms unfolding getParentDomain_def Let_def by (auto split: if_splits)
qed

lemma getParentDomain_semicolon:
  "semicolon \<notin> set h \<Longrightarrow> semicolon \<notin> set (getParentDomain h)"
  using getParentDomain_chars [of semicolon h] by (auto simp: semicolon_def dot_def)

lemma is_wsp_is_space: "is_wsp c \<Longrightarrow> is_space c"
  by (auto simp: is_wsp_def is_space_def)

lemma sanitizeKey_props:
  assumes "sanitizeKey key = Some sk"
  shows "sk \<noteq> []" "semicolon \<notin> set sk" "equals \<notin> set sk" "\<forall>c\<in>set sk. \<not> is_space c"
    "\<exists>k. key = JStr k"
proof -
  obtain k where k: "key = JStr k" using assms by (cases key) simp_all
  then have sk: "sk = replace_forbidden k" and ne: "k \<noteq> []"
    using assms by (auto split: if_splits)
  have u: "underscore \<noteq> semicolon" "underscore \<noteq> equals" "\<not> is_space underscore"
    by (simp_all add: underscore_def semicolon_def equals_def is_space_def)
  show "sk \<noteq> []" using sk ne by (simp add: replace_forbidden_def)
  show "semicolon \<notin> set sk" using u unfolding sk replace_forbidden_def by auto
  show "equals \<notin> set sk" using u unfolding sk replace_forbidden_def by auto
  show "\<forall>c\<in>set sk. \<not> is_space c" using u unfolding sk replace_forbidden_def by auto
  show "\<exists>k. key = JStr k" using k by simp
qed









lemma cookie_name_ok:
  assumes "sanitizeKey key = Some sk" and "prefix_ok p"
  shows "p @ sk \<noteq> []" "semicolon \<notin> set (p @ sk)" "equals \<notin> set (p @ sk)"
    "\<not> is_space (hd (p @ sk))" "\<not> is_space (last (p @ sk))"
    "\<not> is_wsp (hd (p @ sk))" "\<not> is_wsp (last (p @ sk))"
proof -
  note k = sanitizeKey_props [OF assms(1)]
  have p: "semicolon \<notin> set p" "equals \<notin> set p" "p = [] \<or> \<not> is_space (hd p)"
    using assms(2) by (simp_all add: prefix_ok_def)
  show "p @ sk \<noteq> []" using k(1) by simp
  show "semicolon \<notin> set (p @ sk)" using k(2) p(1) by simp
  show "equals \<notin> set (p @ sk)" using k(3) p(2) by simp
  show h: "\<not> is_space (hd (p @ sk))"
  proof (cases "p = []")
    case True
    then show ?thesis using k(1,4) by simp
  next
    case False
    then show ?thesis using p(3) by simp
  qed
  show l: "\<not> is_space (last (p @ sk))" using k(1,4) by simp
  show "\<not> is_wsp (hd (p @ sk))" using h is_wsp_is_space by blast
  show "\<not> is_wsp (last (p @ sk))" using l is_wsp_is_space by blast
qed



lemma deleteFromCookie_jar:
  assumes "sanitizeKey key = Some sk"
    and "cookiePrefix (CONFIG w) = JStr p" and "prefix_ok p"
    and "semicolon \<notin> set (hostname w)"
  shows "cookies (snd (deleteFromCookie key w)) = AList.delete (p @ sk) (cookies w)"
proof -
  note nm = cookie_name_ok [OF assms(1,3)]
  have D: "semicolon \<notin> set (getParentDomain (hostname w))"
    using assms(4) by (rule getParentDomain_semicolon)
  have z: "semicolon \<notin> set (js ''0'')" "delta_seconds (js ''0'') = Some 0"
    "js ''0'' = [] \<or> (\<not> is_wsp (hd (js ''0'')) \<and> \<not> is_wsp (last (js ''0'')))"
    by (simp_all add: js_def semicolon_def delta_seconds_def is_digit_def digits_value_def
        is_wsp_def)
  have v: "semicolon \<notin> set ([]::jsstring)"
    "([]::jsstring) = [] \<or> (\<not> is_wsp (hd ([]::jsstring)) \<and> \<not> is_wsp (last ([]::jsstring)))"
    by simp_all
  note a = assign_sync_cookie [OF nm(1,2,3,6,7) v z D, of w]
  have s: "(p @ sk) @ js ''=; max-age=0; domain='' @ getParentDomain (hostname w)
        @ js ''; path=/; SameSite=Lax''
      = (p @ sk) @ js ''='' @ [] @ js ''; max-age='' @ js ''0'' @ js ''; domain=''
        @ getParentDomain (hostname w) @ js ''; path=/; SameSite=Lax''"
    by (simp add: js_def)
  have t: "deleteFromCookie_try key w
      = (Inr True, set_document_cookie
           ((p @ sk) @ js ''=; max-age=0; domain='' @ getParentDomain (hostname w)
            @ js ''; path=/; SameSite=Lax'') w)"
    using assms(1,2) by (simp add: deleteFromCookie_try_def Let_def)
  show ?thesis unfolding deleteFromCookie_def t s using a by simp
qed


lemma jar_ok_delete: "jar_ok jar \<Longrightarrow> jar_ok (AList.delete n jar)"
  unfolding jar_ok_def by (induction jar) auto

section \<open>Cookie round trip\<close>






section \<open>Clearing a storage area\<close>

lemma storage_listener_null_key:
  "ev_key ev = None \<Longrightarrow> storage_listener ev w = (Inr (), w)"
  by (simp add: storage_listener_def Let_def)

lemma storage_event_null_key:
  "ev_key ev = None \<Longrightarrow> storage_event ev w = w"
proof -
  assume k: "ev_key ev = None"
  have "deliver_storage_event n ev w = w" for n
    by (induction n) (simp_all add: storage_listener_null_key [OF k])
  then show ?thesis by (simp add: storage_event_def)
qed

lemma chat_ab_search:
  "RegExpSearch (chat_pattern (js ''g'')) (js ''chat_a'') 0 = Some 5"
  "RegExpSearch (chat_pattern (js ''g'')) (js ''chat_b'') 0 = Some 5"
  "RegExpSearch (chat_pattern (js ''g'')) (js ''chat_b'') 5 = None"
  by (simp_all add: RegExpSearch.simps chat_pattern_def js_def startsWith_def sticky_def
      AdvanceStringIndex_def)

lemma clear_clear_page:
  "call_clear (Wrapper Native) localStorage clear_page
   = (Inr (), clear_page
       \<lparr>cookies := [(js ''sds_sync_chat_b'', js ''2'')],
        localStorage_items := [],
        trace := [CookieAssigned (js ''sds_sync_chat_a=; max-age=0; domain=.example.com; path=/; SameSite=Lax'')]\<rparr>)"
  by (simp add: native_clear_def Object_keys_def shouldSyncStorage_def shouldSync_def
      RegExp_test_def RegExpSearch.simps global_def sticky_def chat_pattern_def
      AdvanceStringIndex_def fun_upd_idem clear_page_def chat_page_def example_page_def
      CONFIG_default_def global_rules_def cookie_defs string_defs Let_def)

text \<open>
  Claim C5. A storage event with a null key changes nothing, whatever the page
  (\<open>storage_event_null_key\<close>). The claim says a same-tab \<^verbatim>\<open>clear()\<close> deletes the cookie of
  every key of the area that the key matcher accepts. The \<^verbatim>\<open>clear\<close> wrapper asks
  \<^verbatim>\<open>shouldSync\<close> for each key in turn, and with the rule list \<^verbatim>\<open>[/^chat_/g]\<close> the test of
  the second key starts at the \<^verbatim>\<open>lastIndex\<close> the first left behind: local storage holds
  \<^verbatim>\<open>chat_a\<close> and \<^verbatim>\<open>chat_b\<close>, the rule matches both, \<^verbatim>\<open>clear()\<close> empties the area and
  deletes the cookie of \<^verbatim>\<open>chat_a\<close>, and the cookie of \<^verbatim>\<open>chat_b\<close> stays and is still read.
\<close>

theorem clear_keeps_cookie_after_global_match:
  "Storage_clear clear_page = Wrapper Native
   \<and> shouldSyncStorage (CONFIG clear_page) localStorage
   \<and> Object_keys (items_of localStorage clear_page) = [js ''chat_a'', js ''chat_b'']
   \<and> key_matches global_rules (js ''chat_b'')
   \<and> fst (shouldSync (JStr (js ''chat_b'')) clear_page) = Inr True
   \<and> fst (call_clear (Storage_clear clear_page) localStorage clear_page) = Inr ()
   \<and> items_of localStorage (snd (call_clear (Storage_clear clear_page) localStorage clear_page)) = []
   \<and> cookies (snd (call_clear (Storage_clear clear_page) localStorage clear_page))
       = [(js ''sds_sync_chat_b'', js ''2'')]
   \<and> readFromCookie (JStr (js ''chat_b''))
        (snd (call_clear (Storage_clear clear_page) localStorage clear_page)) = Inr (Some (js ''2''))"
proof -
  have g: "global (chat_pattern (js ''g''))"
    by (simp add: global_def chat_pattern_def js_def)
  have c: "Storage_clear clear_page = Wrapper Native" by (simp add: clear_page_def)
  have 1: "shouldSyncStorage (CONFIG clear_page) localStorage"
    "Object_keys (items_of localStorage clear_page) = [js ''chat_a'', js ''chat_b'']"
    by (simp_all add: Object_keys_def clear_page_def chat_page_def example_page_def
        shouldSyncStorage_def CONFIG_default_def)
  have 2: "key_matches global_rules (js ''chat_b'')"
    by (simp add: key_matches_def global_rules_def chat_ab_search) (simp add: js_def)
  have 3: "fst (shouldSync (JStr (js ''chat_b'')) clear_page) = Inr True"
    by (simp add: shouldSync_def clear_page_def chat_page_def example_page_def
        global_rules_def RegExp_test_def g chat_ab_search) (simp add: js_def)
  have 4: "readFromCookie (JStr (js ''chat_b''))
        (clear_page
       \<lparr>cookies := [(js ''sds_sync_chat_b'', js ''2'')],
        localStorage_items := [],
        trace := [CookieAssigned (js ''sds_sync_chat_a=; max-age=0; domain=.example.com; path=/; SameSite=Lax'')]\<rparr>)
      = Inr (Some (js ''2''))"
    by (simp add: readFromCookie_def readFromCookie_try_def clear_page_def chat_page_def
        example_page_def CONFIG_default_def document_cookie_def replace_forbidden_def
        string_defs comma_def underscore_def Let_def)
  show ?thesis
    unfolding c clear_clear_page using 1 2 3 4 by simp
qed

theorem clear_keeps_cookie_after_global_match_witness:
  "key_matches global_rules (js ''chat_b'')
   \<and> cookies (snd (call_clear (Storage_clear clear_page) localStorage clear_page))
       = [(js ''sds_sync_chat_b'', js ''2'')]"
  using clear_keeps_cookie_after_global_match by blast

end
